theory Spec2Isabelle
  imports Complex_Main
begin

section \<open>Data model\<close>

text \<open>
  A sample is a Python \<^verbatim>\<open>dict[str, str]\<close>, one JSON object per line of the dataset
  file. It is a finite map from keys to values; equality of maps is equality of
  dicts (the order of the keys does not matter).
\<close>

type_synonym sample = "string \<rightharpoonup> string"

text \<open>The exceptions that the modelled code can raise.\<close>

datatype error =
    IndexError        \<comment> \<open>\<^verbatim>\<open>self.words.pop()\<close> on an empty list\<close>
  | KeyError          \<comment> \<open>\<^verbatim>\<open>sample["url"]\<close> on a dict without that key\<close>
  | ValueError        \<comment> \<open>\<^verbatim>\<open>raise ValueError("Driver is not initialized")\<close>\<close>
  | HTTPError nat     \<comment> \<open>\<^verbatim>\<open>response.raise_for_status()\<close> on a 4xx/5xx status\<close>

text \<open>The messages written to the log.\<close>

datatype logmsg =
    LongSleepTrack            \<comment> \<open>\<^verbatim>\<open>"Long sleep (track)"\<close>\<close>
  | LongSleepQuery            \<comment> \<open>\<^verbatim>\<open>"Long sleep (query)"\<close>\<close>
  | DoneScraping int          \<comment> \<open>\<^verbatim>\<open>"Done scraping {dataset_length} articles"\<close>\<close>
  | ClickedButton             \<comment> \<open>\<^verbatim>\<open>"Clicked the 'SUTINKU' button"\<close>\<close>
  | ClickError                \<comment> \<open>\<^verbatim>\<open>"An error occurred while clicking the button"\<close>\<close>
  | MissingText string        \<comment> \<open>\<^verbatim>\<open>"Missing text and/or summary for article: {url}"\<close>\<close>
  | Progress int int          \<comment> \<open>\<^verbatim>\<open>"Progress: {dataset_length}/{max_articles} articles scraped"\<close>\<close>

datatype sleep_kind = Short | Long

text \<open>
  Everything the scraper does to the outside world, in the order it does it.
  \<open>EvSleep k lo hi\<close> is \<^verbatim>\<open>time.sleep(random.uniform(lo, hi))\<close> called from
  \<^verbatim>\<open>_short_sleep\<close> or \<^verbatim>\<open>_long_sleep\<close>.
\<close>

datatype event =
    EvLog logmsg
  | EvSleep sleep_kind real real
  | EvPop string              \<comment> \<open>the query returned by \<^verbatim>\<open>self.words.pop()\<close>\<close>
  | EvDriverGet string        \<comment> \<open>\<^verbatim>\<open>self.driver.get(url)\<close>: a search page is loaded\<close>
  | EvSessionGet string       \<comment> \<open>\<^verbatim>\<open>self.session.get(url=article_url)\<close>: an article page is fetched\<close>
  | EvTouch                   \<comment> \<open>\<^verbatim>\<open>self.dataset_path.touch()\<close>\<close>
  | EvWrite sample            \<comment> \<open>\<^verbatim>\<open>writer.write(sample)\<close> in append mode\<close>

text \<open>
  The \<^verbatim>\<open>Scraper\<close> object together with the dataset file it owns.
  \<open>dataset_file = None\<close> means that \<^verbatim>\<open>dataset_path.exists()\<close> is false.
\<close>

record scraper =
  chrome_options :: "string list"
  driver :: bool
  cookie_button_clicked :: bool
  debug :: bool
  max_articles :: int
  dataset_length :: int
  seen_urls :: "string set"
  words :: "string list"
  dataset_file :: "sample list option"
  trace :: "event list"

text \<open>
  What BeautifulSoup finds in an article page: for each of the three selectors, the
  stripped text of the selected element, or \<open>None\<close> when \<^verbatim>\<open>select_one\<close> finds no element.
\<close>

record article_page =
  title_element :: "string option"
  content_element :: "string option"
  summary_element :: "string option"

record response =
  status_code :: nat
  soup :: article_page

text \<open>
  The web site and the libraries that look at it. Answers may change over time: every
  request is given the number of events that happened before it.
  \<open>page_links t url\<close> are the \<^verbatim>\<open>href\<close>s of the \<^verbatim>\<open>h3 > a\<close> tags of the search page,
  \<open>domain_of link\<close> is \<^verbatim>\<open>tldextract.extract(link).domain\<close>,
  \<open>button_clickable t\<close> says whether the cookie button can be clicked within the wait, and
  \<open>http_get t url\<close> is the response of \<^verbatim>\<open>session.get\<close>.
\<close>

record web =
  page_links :: "nat \<Rightarrow> string \<Rightarrow> string list"
  domain_of :: "string \<Rightarrow> string"
  button_clickable :: "nat \<Rightarrow> bool"
  http_get :: "nat \<Rightarrow> string \<Rightarrow> response"

section \<open>The scraper\<close>

definition emit :: "event \<Rightarrow> scraper \<Rightarrow> scraper" where
  "emit e s = s\<lparr>trace := trace s @ [e]\<rparr>"

definition now :: "scraper \<Rightarrow> nat" where
  "now s = length (trace s)"

definition short_sleep :: "scraper \<Rightarrow> scraper" where
  "short_sleep s =
     (if debug s then emit (EvSleep Short (0.1) (0.15)) s
      else emit (EvSleep Short 30 60) s)"

definition long_sleep :: "scraper \<Rightarrow> scraper" where
  "long_sleep s =
     (if debug s then emit (EvSleep Long (0.1) (0.15)) s
      else emit (EvSleep Long 300 420) s)"

definition setup_chrome_options :: "bool \<Rightarrow> string list" where
  "setup_chrome_options headless =
     (if headless then [''--headless''] else []) @
     [''--no-sandbox'', ''--disable-dev-shm-usage'',
      ''--user-agent=Mozilla/5.0 (Windows NT 10.0; Win64; x64) '' @
      ''AppleWebKit/537.36 (KHTML, like Gecko) '' @
      ''Chrome/120.0.0.0 Safari/537.36'']"

text \<open>The loop of \<^verbatim>\<open>_get_dataset_info\<close> over the records of the file.\<close>

fun read_records :: "sample list \<Rightarrow> scraper \<Rightarrow> (error + unit) \<times> scraper" where
  "read_records [] s = (Inr (), s)"
| "read_records (sample # rest) s =
     (case sample ''url'' of
        None \<Rightarrow> (Inl KeyError, s)
      | Some u \<Rightarrow>
          read_records rest
            (s\<lparr>seen_urls := insert u (seen_urls s),
               dataset_length := dataset_length s + 1\<rparr>))"

definition get_dataset_info :: "scraper \<Rightarrow> (error + unit) \<times> scraper" where
  "get_dataset_info s =
     (case dataset_file s of
        None \<Rightarrow> (Inr (), s)
      | Some samples \<Rightarrow> read_records samples s)"

text \<open>
  \<^verbatim>\<open>Scraper.__init__\<close>. The dataset file is what is on disk at \<^verbatim>\<open>dataset_path\<close>;
  \<open>shuffled\<close> is \<^verbatim>\<open>top_n_list("lt", 1000)\<close> after \<^verbatim>\<open>random.shuffle\<close>.
  When \<^verbatim>\<open>_get_dataset_info\<close> raises, the words are never assigned.
\<close>

definition init ::
  "sample list option \<Rightarrow> int \<Rightarrow> bool \<Rightarrow> bool \<Rightarrow> string list \<Rightarrow> (error + unit) \<times> scraper" where
  "init file maxa headless dbg shuffled =
     (let s = \<lparr>chrome_options = setup_chrome_options headless,
                driver = False,
                cookie_button_clicked = False,
                debug = dbg,
                max_articles = maxa,
                dataset_length = 0,
                seen_urls = {},
                words = [],
                dataset_file = file,
                trace = []\<rparr>
      in case get_dataset_info s of
           (Inl e, s') \<Rightarrow> (Inl e, s')
         | (Inr _, s') \<Rightarrow> (Inr (), s'\<lparr>words := shuffled\<rparr>))"

text \<open>\<^verbatim>\<open>__enter__\<close> starts the browser.\<close>

definition enter :: "scraper \<Rightarrow> scraper" where
  "enter s = s\<lparr>driver := True\<rparr>"

text \<open>\<^verbatim>\<open>self.words.pop()\<close>: removes and returns the last word.\<close>

definition pop :: "scraper \<Rightarrow> (error + string) \<times> scraper" where
  "pop s =
     (if words s = [] then (Inl IndexError, s)
      else (Inr (last (words s)),
            emit (EvPop (last (words s))) (s\<lparr>words := butlast (words s)\<rparr>)))"

definition click_cookie_button :: "web \<Rightarrow> scraper \<Rightarrow> scraper" where
  "click_cookie_button w s =
     (if button_clickable w (now s) then emit (EvLog ClickedButton) s
      else emit (EvLog ClickError) s)"

definition base_url :: "string \<Rightarrow> string" where
  "base_url query = ''https://www.lrytas.lt/search?q='' @ query"

definition article_url_of :: "web \<Rightarrow> string \<Rightarrow> string" where
  "article_url_of w link =
     (if \<not> domain_of w link = ''lrytas'' then ''https://www.lrytas.lt'' @ link
      else link)"

definition get_article_urls :: "web \<Rightarrow> string \<Rightarrow> scraper \<Rightarrow> (error + string list) \<times> scraper" where
  "get_article_urls w query s =
     (let url = base_url query in
      if \<not> driver s then (Inl ValueError, s)
      else
        let s1 = emit (EvDriverGet url) s;
            s2 = short_sleep s1;
            s3 = (if \<not> cookie_button_clicked s2
                  then (click_cookie_button w s2)\<lparr>cookie_button_clicked := True\<rparr>
                  else s2)
        in (Inr (map (article_url_of w) (page_links w (now s3) url)), s3))"

definition get_title :: "article_page \<Rightarrow> string" where
  "get_title pg = (case title_element pg of None \<Rightarrow> '''' | Some title \<Rightarrow> title)"

definition get_summary :: "article_page \<Rightarrow> string" where
  "get_summary pg = (case summary_element pg of None \<Rightarrow> '''' | Some summary \<Rightarrow> summary)"

definition get_text :: "article_page \<Rightarrow> string" where
  "get_text pg = (case content_element pg of None \<Rightarrow> '''' | Some text \<Rightarrow> text)"

definition make_sample :: "string \<Rightarrow> string \<Rightarrow> string \<Rightarrow> string \<Rightarrow> sample" where
  "make_sample article_url title summary text =
     [''url'' \<mapsto> article_url, ''title'' \<mapsto> title, ''summary'' \<mapsto> summary, ''text'' \<mapsto> text]"

definition get_article_data ::
  "web \<Rightarrow> string \<Rightarrow> scraper \<Rightarrow> (error + sample option) \<times> scraper" where
  "get_article_data w article_url s =
     (let s1 = short_sleep s;
          response = http_get w (now s1) article_url;
          s2 = emit (EvSessionGet article_url) s1
      in if 400 \<le> status_code response \<and> status_code response < 600
         then (Inl (HTTPError (status_code response)), s2)
         else
           let title = get_title (soup response);
               text = get_text (soup response);
               summary = get_summary (soup response)
           in if text = '''' \<or> summary = ''''
              then (Inr None, emit (EvLog (MissingText article_url)) s2)
              else (Inr (Some (make_sample article_url title summary text)), s2))"

definition save_sample :: "sample \<Rightarrow> scraper \<Rightarrow> (error + unit) \<times> scraper" where
  "save_sample sample s =
     (let s1 = (if dataset_file s = None
                then emit EvTouch (s\<lparr>dataset_file := Some []\<rparr>) else s);
          s2 = emit (EvWrite sample)
                 (s1\<lparr>dataset_file := Some (the (dataset_file s1) @ [sample])\<rparr>)
      in case sample ''url'' of
           None \<Rightarrow> (Inl KeyError, s2)
         | Some u \<Rightarrow>
             let s3 = s2\<lparr>seen_urls := insert u (seen_urls s2)\<rparr>;
                 s4 = s3\<lparr>dataset_length := dataset_length s3 + 1\<rparr>
             in if dataset_length s4 mod 10 = 0
                then (Inr (), emit (EvLog (Progress (dataset_length s4) (max_articles s4))) s4)
                else (Inr (), s4))"

text \<open>The \<^verbatim>\<open>for article_url in article_urls\<close> loop of \<^verbatim>\<open>_scrape\<close>.\<close>

fun scrape_urls :: "web \<Rightarrow> string list \<Rightarrow> scraper \<Rightarrow> (error + unit) \<times> scraper" where
  "scrape_urls w [] s = (Inr (), s)"
| "scrape_urls w (article_url # rest) s =
     (if article_url \<in> seen_urls s then scrape_urls w rest s
      else
        (case get_article_data w article_url s of
           (Inl e, s1) \<Rightarrow> (Inl e, s1)
         | (Inr None, s1) \<Rightarrow> scrape_urls w rest s1
         | (Inr (Some sample), s1) \<Rightarrow>
             (case save_sample sample s1 of
                (Inl e, s2) \<Rightarrow> (Inl e, s2)
              | (Inr _, s2) \<Rightarrow> scrape_urls w rest s2)))"

text \<open>\<^verbatim>\<open>_scrape\<close>: false when the query gave no URL, true otherwise.\<close>

definition priv_scrape :: "web \<Rightarrow> string \<Rightarrow> scraper \<Rightarrow> (error + bool) \<times> scraper" where
  "priv_scrape w query s =
     (case get_article_urls w query s of
        (Inl e, s1) \<Rightarrow> (Inl e, s1)
      | (Inr article_urls, s1) \<Rightarrow>
          if article_urls = [] then (Inr False, s1)
          else
            (case scrape_urls w article_urls s1 of
               (Inl e, s2) \<Rightarrow> (Inl e, s2)
             | (Inr _, s2) \<Rightarrow> (Inr True, s2)))"

lemma words_emit: "words (emit e s) = words s"
  by (simp add: emit_def)

lemma words_short_sleep: "words (short_sleep s) = words s"
  by (simp add: short_sleep_def words_emit)

lemma words_long_sleep: "words (long_sleep s) = words s"
  by (simp add: long_sleep_def words_emit)

lemma words_get_article_urls: "get_article_urls w q s = (r, s') \<Longrightarrow> words s' = words s"
  by (auto simp: get_article_urls_def Let_def click_cookie_button_def words_emit
      words_short_sleep split: if_splits)

lemma words_get_article_data: "get_article_data w u s = (r, s') \<Longrightarrow> words s' = words s"
  by (auto simp: get_article_data_def Let_def words_emit words_short_sleep split: if_splits)

lemma words_save_sample: "save_sample x s = (r, s') \<Longrightarrow> words s' = words s"
  by (auto simp: save_sample_def Let_def words_emit split: if_splits option.splits)

lemma words_scrape_urls: "scrape_urls w us s = (r, s') \<Longrightarrow> words s' = words s"
proof (induction us arbitrary: s)
  case Nil
  then show ?case by simp
next
  case (Cons u us)
  then show ?case
    by (auto split: if_splits prod.splits sum.splits option.splits
        dest!: words_get_article_data words_save_sample)
qed

lemma words_priv_scrape: "priv_scrape w q s = (r, s') \<Longrightarrow> words s' = words s"
  by (auto simp: priv_scrape_def split: prod.splits sum.splits if_splits
      dest!: words_get_article_urls words_scrape_urls)

lemma words_pop: "pop s = (Inr q, s') \<Longrightarrow> length (words s') < length (words s)"
  by (auto simp: pop_def words_emit split: if_splits)

text \<open>The inner loop of \<^verbatim>\<open>scrape\<close>: \<^verbatim>\<open>while not self._scrape(query=query)\<close>.\<close>

function scrape_query :: "web \<Rightarrow> string \<Rightarrow> scraper \<Rightarrow> (error + unit) \<times> scraper" where
  "scrape_query w query s =
     (case priv_scrape w query s of
        (Inl e, s1) \<Rightarrow> (Inl e, s1)
      | (Inr True, s1) \<Rightarrow> (Inr (), s1)
      | (Inr False, s1) \<Rightarrow>
          (let s2 = long_sleep (emit (EvLog LongSleepQuery) s1) in
           case pop s2 of
             (Inl e, s3) \<Rightarrow> (Inl e, s3)
           | (Inr query', s3) \<Rightarrow> scrape_query w query' s3))"
  by pat_completeness auto
termination
proof (relation "measure (\<lambda>(w, query, s). length (words s))")
  show "wf (measure (\<lambda>(w, query, s). length (words s)))" by simp
next
  fix w :: web and query query' :: string and s s1 s2 s3 :: scraper
    and r :: "error + bool" and b :: bool and r' :: "error + string"
  assume a: "(r, s1) = priv_scrape w query s"
    and b: "s2 = long_sleep (emit (EvLog LongSleepQuery) s1)"
    and c: "(r', s3) = pop s2" and d: "r' = Inr query'"
  have "words s1 = words s" using a words_priv_scrape[of w query s r s1] by simp
  moreover have "length (words s3) < length (words s2)"
    using c d words_pop[of s2 query' s3] by simp
  ultimately show "((w, query', s3), (w, query, s)) \<in> measure (\<lambda>(w, query, s). length (words s))"
    using b by (simp add: words_long_sleep words_emit)
qed

declare scrape_query.simps [simp del]

lemma words_scrape_query:
  "scrape_query w q s = (r, s') \<Longrightarrow> length (words s') \<le> length (words s)"
proof (induction w q s rule: scrape_query.induct)
  case (1 w query s)
  obtain r1 s1 where p: "priv_scrape w query s = (r1, s1)" by (cases "priv_scrape w query s")
  then have w1: "words s1 = words s" by (rule words_priv_scrape)
  define s2 where "s2 = long_sleep (emit (EvLog LongSleepQuery) s1)"
  have w2: "words s2 = words s" by (simp add: s2_def words_long_sleep words_emit w1)
  obtain r3 s3 where q: "pop s2 = (r3, s3)" by (cases "pop s2")
  show ?case
  proof (cases r1)
    case (Inl e)
    with p "1.prems" w1 show ?thesis by (simp add: scrape_query.simps)
  next
    case (Inr b)
    show ?thesis
    proof (cases b)
      case True
      with p Inr "1.prems" w1 show ?thesis by (simp add: scrape_query.simps)
    next
      case False
      show ?thesis
      proof (cases r3)
        case (Inl e)
        with p \<open>r1 = Inr b\<close> False q "1.prems" w2 show ?thesis
          by (simp add: scrape_query.simps[of w query s] s2_def pop_def split: if_splits)
      next
        case r3: (Inr query')
        have rec: "scrape_query w query' s3 = (r, s')"
          using p \<open>r1 = Inr b\<close> False q r3 "1.prems"
          by (simp add: scrape_query.simps[of w query s] s2_def)
        have "length (words s') \<le> length (words s3)"
          using "1.IH"[OF p[symmetric] \<open>r1 = Inr b\<close> _ s2_def q[symmetric] r3 rec] False
          by simp
        moreover have "length (words s3) < length (words s2)"
          using q r3 words_pop by simp
        ultimately show ?thesis using w2 by simp
      qed
    qed
  qed
qed

text \<open>
  The outer loop of \<^verbatim>\<open>scrape\<close>, with the local variable \<^verbatim>\<open>track\<close> as an argument.
\<close>

function scrape_loop :: "web \<Rightarrow> int \<Rightarrow> scraper \<Rightarrow> (error + unit) \<times> scraper" where
  "scrape_loop w track s =
     (if dataset_length s < max_articles s then
        (let (s1, track1) =
               (if dataset_length s - track > 25
                then (long_sleep (emit (EvLog LongSleepTrack) s), dataset_length s)
                else (s, track))
         in case pop s1 of
              (Inl e, s2) \<Rightarrow> (Inl e, s2)
            | (Inr query, s2) \<Rightarrow>
                (case scrape_query w query s2 of
                   (Inl e, s3) \<Rightarrow> (Inl e, s3)
                 | (Inr _, s3) \<Rightarrow> scrape_loop w track1 s3))
      else (Inr (), emit (EvLog (DoneScraping (dataset_length s))) s))"
  by pat_completeness auto
termination
proof (relation "measure (\<lambda>(w, track, s). length (words s))")
  show "wf (measure (\<lambda>(w, track, s). length (words s)))" by simp
next
  fix w :: web and track track1 :: int and s s1 s2 s3 :: scraper and x :: "scraper \<times> int"
    and r2 :: "error + string" and query :: string and r3 :: "error + unit" and u :: unit
  assume x: "x = (if 25 < dataset_length s - track
                  then (long_sleep (emit (EvLog LongSleepTrack) s), dataset_length s)
                  else (s, track))"
    and s1: "(s1, track1) = x"
    and p: "(r2, s2) = pop s1" and r2: "r2 = Inr query"
    and q: "(r3, s3) = scrape_query w query s2"
  have "words s1 = words s"
    using x s1 by (auto simp: words_long_sleep words_emit split: if_splits)
  moreover have "length (words s2) < length (words s1)"
    using p r2 words_pop[of s1 query s2] by simp
  moreover have "length (words s3) \<le> length (words s2)"
    using q words_scrape_query[of w query s2 r3 s3] by simp
  ultimately show "((w, track1, s3), (w, track, s)) \<in> measure (\<lambda>(w, track, s). length (words s))"
    by simp
qed

declare scrape_loop.simps [simp del]

definition scrape :: "web \<Rightarrow> scraper \<Rightarrow> (error + unit) \<times> scraper" where
  "scrape w s = scrape_loop w (dataset_length s) s"

text \<open>
  The script \<^verbatim>\<open>scrape.py\<close>: construct the scraper, enter the context, scrape.
\<close>

definition main ::
  "web \<Rightarrow> sample list option \<Rightarrow> int \<Rightarrow> bool \<Rightarrow> bool \<Rightarrow> string list \<Rightarrow> (error + unit) \<times> scraper" where
  "main w file maxa headless dbg shuffled =
     (case init file maxa headless dbg shuffled of
        (Inl e, s) \<Rightarrow> (Inl e, s)
      | (Inr _, s) \<Rightarrow> scrape w (enter s))"

section \<open>The dataset builder\<close>

text \<open>
  \<^verbatim>\<open>str.isspace\<close> on the characters below 256: tab, line feed, vertical tab, form feed,
  carriage return, the four separators 28 to 31, space, next line (133) and no-break
  space (160).
\<close>

definition isspace :: "char \<Rightarrow> bool" where
  "isspace c = (of_char c \<in> {9, 10, 11, 12, 13, 28, 29, 30, 31, 32, 133, 160 :: nat})"

text \<open>\<^verbatim>\<open>str.strip()\<close>: leading and trailing whitespace removed.\<close>

definition strip :: "string \<Rightarrow> string" where
  "strip str = rev (dropWhile isspace (rev (dropWhile isspace str)))"

text \<open>\<^verbatim>\<open>dict.get(key, default)\<close>.\<close>

definition dict_get :: "sample \<Rightarrow> string \<Rightarrow> string \<Rightarrow> string" where
  "dict_get d key dflt = (case d key of None \<Rightarrow> dflt | Some v \<Rightarrow> v)"

text \<open>
  The loop of \<^verbatim>\<open>_ignore_duplicates\<close>, with \<^verbatim>\<open>seen_titles\<close> and \<^verbatim>\<open>unique_samples\<close>
  as arguments.
\<close>

fun ignore_loop :: "sample list \<Rightarrow> string set \<Rightarrow> sample list \<Rightarrow> sample list" where
  "ignore_loop [] seen_titles unique_samples = unique_samples"
| "ignore_loop (sample # rest) seen_titles unique_samples =
     (let title = strip (dict_get sample ''title'' '''') in
      if title \<noteq> '''' \<and> title \<notin> seen_titles
      then ignore_loop rest (insert title seen_titles) (unique_samples @ [sample])
      else ignore_loop rest seen_titles unique_samples)"

definition ignore_duplicates :: "sample list \<Rightarrow> sample list" where
  "ignore_duplicates samples = ignore_loop samples {} []"

text \<open>
  Title deduplication as the specification words it: a sample is kept when its trimmed
  title is not empty and no earlier sample has the same trimmed title.
\<close>

definition trimmed_title :: "sample \<Rightarrow> string" where
  "trimmed_title sample = strip (dict_get sample ''title'' '''')"

definition first_occurrence :: "sample list \<Rightarrow> nat \<Rightarrow> bool" where
  "first_occurrence samples i =
     (trimmed_title (samples ! i) \<noteq> '''' \<and>
      trimmed_title (samples ! i) \<notin> trimmed_title ` set (take i samples))"

definition keep_first_titles :: "sample list \<Rightarrow> sample list" where
  "keep_first_titles samples =
     map (nth samples) (filter (first_occurrence samples) [0..<length samples])"


section \<open>Auxiliary facts\<close>

definition err :: "error + 'a \<Rightarrow> error option" where
  "err r = (case r of Inl e \<Rightarrow> Some e | Inr _ \<Rightarrow> None)"

lemma err_simps [simp]: "err (Inl e) = Some e" "err (Inr x) = None"
  by (simp_all add: err_def)

subsection \<open>Frame facts\<close>

lemma emit_fields [simp]:
  "trace (emit e s) = trace s @ [e]"
  "words (emit e s) = words s"
  "dataset_length (emit e s) = dataset_length s"
  "max_articles (emit e s) = max_articles s"
  "seen_urls (emit e s) = seen_urls s"
  "dataset_file (emit e s) = dataset_file s"
  "debug (emit e s) = debug s"
  "driver (emit e s) = driver s"
  "cookie_button_clicked (emit e s) = cookie_button_clicked s"
  by (simp_all add: emit_def)

lemma short_sleep_fields [simp]:
  "words (short_sleep s) = words s"
  "dataset_length (short_sleep s) = dataset_length s"
  "max_articles (short_sleep s) = max_articles s"
  "seen_urls (short_sleep s) = seen_urls s"
  "dataset_file (short_sleep s) = dataset_file s"
  "debug (short_sleep s) = debug s"
  "driver (short_sleep s) = driver s"
  "cookie_button_clicked (short_sleep s) = cookie_button_clicked s"
  by (simp_all add: short_sleep_def)

lemma long_sleep_fields [simp]:
  "words (long_sleep s) = words s"
  "dataset_length (long_sleep s) = dataset_length s"
  "max_articles (long_sleep s) = max_articles s"
  "seen_urls (long_sleep s) = seen_urls s"
  "dataset_file (long_sleep s) = dataset_file s"
  "debug (long_sleep s) = debug s"
  "driver (long_sleep s) = driver s"
  "cookie_button_clicked (long_sleep s) = cookie_button_clicked s"
  by (simp_all add: long_sleep_def)

lemma get_article_urls_frame:
  assumes "get_article_urls w q s = (r, s')"
  shows "dataset_length s' = dataset_length s \<and> max_articles s' = max_articles s \<and>
         seen_urls s' = seen_urls s \<and> dataset_file s' = dataset_file s \<and>
         debug s' = debug s \<and> driver s' = driver s"
  using assms
  by (auto simp: get_article_urls_def Let_def click_cookie_button_def split: if_splits)

lemma get_article_data_frame:
  assumes "get_article_data w u s = (r, s')"
  shows "dataset_length s' = dataset_length s \<and> max_articles s' = max_articles s \<and>
         seen_urls s' = seen_urls s \<and> dataset_file s' = dataset_file s \<and>
         debug s' = debug s \<and> driver s' = driver s"
  using assms by (auto simp: get_article_data_def Let_def split: if_splits)

lemma get_article_data_sample:
  assumes "get_article_data w u s = (Inr (Some x), s')"
  shows "\<exists>title summary text. x = make_sample u title summary text \<and> summary \<noteq> '''' \<and> text \<noteq> ''''"
  using assms by (auto simp: get_article_data_def Let_def split: if_splits)

lemma make_sample_url [simp]: "make_sample u title summary text ''url'' = Some u"
  by (simp add: make_sample_def)

lemma save_sample_frame:
  assumes "save_sample x s = (r, s')"
  shows "max_articles s' = max_articles s \<and> debug s' = debug s \<and> driver s' = driver s"
  using assms by (auto simp: save_sample_def Let_def split: if_splits option.splits)

lemma save_sample_ok:
  assumes "save_sample (make_sample u title summary text) s = (r, s')"
  shows "r = Inr () \<and> dataset_length s' = dataset_length s + 1 \<and>
         seen_urls s' = insert u (seen_urls s)"
  using assms by (auto simp: save_sample_def Let_def split: if_splits option.splits)

lemma scrape_urls_frame:
  "scrape_urls w us s = (r, s') \<Longrightarrow>
   max_articles s' = max_articles s \<and> debug s' = debug s \<and> driver s' = driver s"
proof (induction us arbitrary: s)
  case Nil
  then show ?case by simp
next
  case (Cons u us)
  show ?case
  proof (cases "u \<in> seen_urls s")
    case True
    with Cons show ?thesis by simp
  next
    case False
    obtain r1 s1 where d: "get_article_data w u s = (r1, s1)"
      by (cases "get_article_data w u s")
    note f1 = get_article_data_frame[OF d]
    show ?thesis
    proof (cases r1)
      case (Inl e)
      with Cons.prems False d f1 show ?thesis by simp
    next
      case (Inr o1)
      show ?thesis
      proof (cases o1)
        case None
        with Cons.prems False d Inr have "scrape_urls w us s1 = (r, s')" by simp
        from Cons.IH[OF this] f1 show ?thesis by simp
      next
        case (Some x)
        obtain r2 s2 where sv: "save_sample x s1 = (r2, s2)" by (cases "save_sample x s1")
        note f2 = save_sample_frame[OF sv]
        show ?thesis
        proof (cases r2)
          case (Inl e)
          with Cons.prems False d Inr Some sv f1 f2 show ?thesis by simp
        next
          case r2: (Inr v)
          with Cons.prems False d Inr Some sv have "scrape_urls w us s2 = (r, s')" by simp
          from Cons.IH[OF this] f1 f2 show ?thesis by simp
        qed
      qed
    qed
  qed
qed

lemma priv_scrape_frame:
  assumes "priv_scrape w q s = (r, s')"
  shows "max_articles s' = max_articles s \<and> debug s' = debug s \<and> driver s' = driver s"
  using assms
  by (auto simp: priv_scrape_def split: prod.splits sum.splits if_splits
      dest!: get_article_urls_frame scrape_urls_frame)

lemma priv_scrape_False:
  assumes "priv_scrape w q s = (Inr False, s')"
  shows "dataset_length s' = dataset_length s \<and> seen_urls s' = seen_urls s \<and>
         dataset_file s' = dataset_file s"
  using assms
  by (auto simp: priv_scrape_def split: prod.splits sum.splits if_splits
      dest!: get_article_urls_frame)

lemma pop_frame:
  assumes "pop s = (r, s')"
  shows "dataset_length s' = dataset_length s \<and> max_articles s' = max_articles s \<and>
         seen_urls s' = seen_urls s \<and> dataset_file s' = dataset_file s \<and>
         debug s' = debug s \<and> driver s' = driver s"
  using assms by (auto simp: pop_def split: if_splits)

subsection \<open>A proof rule for the crawl\<close>

lemma scrape_urls_rule:
  assumes refl: "\<And>s. Q s None s"
    and trans: "\<And>s s' s'' r. Q s None s' \<Longrightarrow> Q s' r s'' \<Longrightarrow> Q s r s''"
    and data: "\<And>u s r s'. u \<notin> seen_urls s \<Longrightarrow> get_article_data w u s = (r, s') \<Longrightarrow> Q s (err r) s'"
    and save: "\<And>u title summary text s r s'.
        u \<notin> seen_urls s \<Longrightarrow> summary \<noteq> '''' \<Longrightarrow> text \<noteq> '''' \<Longrightarrow>
        save_sample (make_sample u title summary text) s = (r, s') \<Longrightarrow> Q s None s'"
  shows "scrape_urls w us s = (r, s') \<Longrightarrow> Q s (err r) s'"
proof (induction us arbitrary: s)
  case Nil
  then show ?case by (auto simp: refl)
next
  case (Cons u us)
  show ?case
  proof (cases "u \<in> seen_urls s")
    case True
    with Cons show ?thesis by simp
  next
    case False
    obtain r1 s1 where d: "get_article_data w u s = (r1, s1)"
      by (cases "get_article_data w u s")
    note q1 = data[OF False d]
    note f1 = get_article_data_frame[OF d]
    show ?thesis
    proof (cases r1)
      case (Inl e)
      with Cons.prems False d q1 show ?thesis by auto
    next
      case (Inr o1)
      show ?thesis
      proof (cases o1)
        case None
        with Cons.prems False d Inr have "scrape_urls w us s1 = (r, s')" by simp
        from Cons.IH[OF this] q1 Inr show ?thesis by (auto intro: trans)
      next
        case (Some x)
        obtain ti su tx where x: "x = make_sample u ti su tx"
          and ne: "su \<noteq> ''''" "tx \<noteq> ''''"
          using get_article_data_sample d Inr Some by blast
        obtain r2 s2 where sv: "save_sample x s1 = (r2, s2)" by (cases "save_sample x s1")
        have r2: "r2 = Inr ()" using save_sample_ok sv x by blast
        have "u \<notin> seen_urls s1" using False f1 by simp
        from save[OF this ne sv[unfolded x]] have q2: "Q s1 None s2" .
        from Cons.prems False d Inr Some sv r2 have "scrape_urls w us s2 = (r, s')" by simp
        from Cons.IH[OF this] have "Q s2 (err r) s'" .
        with q1 q2 Inr show ?thesis by (auto intro: trans)
      qed
    qed
  qed
qed

lemma priv_scrape_rule:
  assumes refl: "\<And>s. Q s None s"
    and trans: "\<And>s s' s'' r. Q s None s' \<Longrightarrow> Q s' r s'' \<Longrightarrow> Q s r s''"
    and urls: "\<And>r s'. get_article_urls w q s = (r, s') \<Longrightarrow> Q s (err r) s'"
    and data: "\<And>u s r s'. u \<notin> seen_urls s \<Longrightarrow> get_article_data w u s = (r, s') \<Longrightarrow> Q s (err r) s'"
    and save: "\<And>u title summary text s r s'.
        u \<notin> seen_urls s \<Longrightarrow> summary \<noteq> '''' \<Longrightarrow> text \<noteq> '''' \<Longrightarrow>
        save_sample (make_sample u title summary text) s = (r, s') \<Longrightarrow> Q s None s'"
    and run: "priv_scrape w q s = (r, s')"
  shows "Q s (err r) s'"
proof -
  obtain r1 s1 where u: "get_article_urls w q s = (r1, s1)"
    by (cases "get_article_urls w q s")
  note q1 = urls[OF u]
  show ?thesis
  proof (cases r1)
    case (Inl e)
    with run u q1 show ?thesis by (auto simp: priv_scrape_def)
  next
    case (Inr us)
    show ?thesis
    proof (cases "us = []")
      case True
      with run u q1 Inr show ?thesis by (auto simp: priv_scrape_def)
    next
      case False
      obtain r2 s2 where su: "scrape_urls w us s1 = (r2, s2)"
        by (cases "scrape_urls w us s1")
      have q2: "Q s1 (err r2) s2"
        by (rule scrape_urls_rule[where Q = Q, OF _ _ _ _ su])
          (blast intro: refl trans data save)+
      have "s' = s2 \<and> err r = err r2"
        using run u Inr False su by (auto simp: priv_scrape_def split: sum.splits)
      with q1 q2 Inr show ?thesis by (auto intro: trans)
    qed
  qed
qed


lemma scrape_query_rule:
  assumes refl: "\<And>s. Q s None s"
    and trans: "\<And>s s' s'' r. Q s None s' \<Longrightarrow> Q s' r s'' \<Longrightarrow> Q s r s''"
    and urls: "\<And>q s r s'. dataset_length s = c \<Longrightarrow> max_articles s = m \<Longrightarrow>
        get_article_urls w q s = (r, s') \<Longrightarrow> Q s (err r) s'"
    and data: "\<And>u s r s'. u \<notin> seen_urls s \<Longrightarrow> get_article_data w u s = (r, s') \<Longrightarrow> Q s (err r) s'"
    and save: "\<And>u title summary text s r s'.
        u \<notin> seen_urls s \<Longrightarrow> summary \<noteq> '''' \<Longrightarrow> text \<noteq> '''' \<Longrightarrow>
        save_sample (make_sample u title summary text) s = (r, s') \<Longrightarrow> Q s None s'"
    and backoff: "\<And>s. Q s None (long_sleep (emit (EvLog LongSleepQuery) s))"
    and pop: "\<And>s r s'. dataset_length s = c \<Longrightarrow> max_articles s = m \<Longrightarrow>
        pop s = (r, s') \<Longrightarrow> Q s (err r) s'"
  shows "scrape_query w q s = (r, s') \<Longrightarrow> dataset_length s = c \<Longrightarrow> max_articles s = m \<Longrightarrow>
         Q s (err r) s'"
proof (induction "length (words s)" arbitrary: q s rule: less_induct)
  case less
  note prems1 = less.prems
  obtain r1 s1 where p: "priv_scrape w q s = (r1, s1)" by (cases "priv_scrape w q s")
  have q1: "Q s (err r1) s1"
  proof (rule priv_scrape_rule[where Q = Q, OF _ _ _ _ _ p])
    show "Q s (err r) s'" if "get_article_urls w q s = (r, s')" for r s'
      using prems1(2,3) that by (rule urls)
  qed (blast intro: refl trans data save)+
  define s2 where "s2 = long_sleep (emit (EvLog LongSleepQuery) s1)"
  obtain r3 s3 where po: "pop s2 = (r3, s3)" by (cases "pop s2")
  show ?case
  proof (cases r1)
    case (Inl e)
    with p prems1 q1 show ?thesis by (auto simp: scrape_query.simps[of w q s])
  next
    case (Inr b)
    show ?thesis
    proof (cases b)
      case True
      with p Inr prems1 q1 show ?thesis by (auto simp: scrape_query.simps[of w q s])
    next
      case False
      have c1: "dataset_length s1 = c" "max_articles s1 = m"
        using priv_scrape_False[of w q s s1] priv_scrape_frame[OF p] p Inr False prems1
        by simp_all
      then have c2: "dataset_length s2 = c" "max_articles s2 = m" by (simp_all add: s2_def)
      have q2: "Q s1 None s2" unfolding s2_def by (rule backoff)
      have q3: "Q s2 (err r3) s3" using c2 po by (rule pop)
      have q13: "Q s (err r3) s3" using q1 q2 q3 Inr by (auto intro: trans)
      show ?thesis
      proof (cases r3)
        case (Inl e)
        with p Inr False po prems1 q13 show ?thesis
          by (auto simp: scrape_query.simps[of w q s] s2_def)
      next
        case r3: (Inr q')
        have rec: "scrape_query w q' s3 = (r, s')"
          using p Inr False po r3 prems1
          by (simp add: scrape_query.simps[of w q s] s2_def)
        have c3: "dataset_length s3 = c" "max_articles s3 = m"
          using pop_frame[OF po] c2 by simp_all
        have "length (words s3) < length (words s)"
          using words_pop[of s2 q' s3] po r3 words_priv_scrape[OF p] by (simp add: s2_def)
        then have "Q s3 (err r) s'" using rec c3 by (rule less.hyps)
        with q13 r3 show ?thesis by (auto intro: trans)
      qed
    qed
  qed
qed

lemma scrape_query_frame:
  "scrape_query w q s = (r, s') \<Longrightarrow>
   max_articles s' = max_articles s \<and> debug s' = debug s \<and> driver s' = driver s"
proof (induction "length (words s)" arbitrary: q s rule: less_induct)
  case less
  note prems1 = less.prems
  obtain r1 s1 where p: "priv_scrape w q s = (r1, s1)" by (cases "priv_scrape w q s")
  note f1 = priv_scrape_frame[OF p]
  define s2 where "s2 = long_sleep (emit (EvLog LongSleepQuery) s1)"
  obtain r3 s3 where po: "pop s2 = (r3, s3)" by (cases "pop s2")
  note f3 = pop_frame[OF po]
  show ?case
  proof (cases r1)
    case (Inl e)
    with p prems1 f1 show ?thesis by (auto simp: scrape_query.simps[of w q s])
  next
    case (Inr b)
    show ?thesis
    proof (cases b)
      case True
      with p Inr prems1 f1 show ?thesis by (auto simp: scrape_query.simps[of w q s])
    next
      case False
      show ?thesis
      proof (cases r3)
        case (Inl e)
        with p Inr False po prems1 f1 f3 show ?thesis
          by (auto simp: scrape_query.simps[of w q s] s2_def)
      next
        case r3: (Inr q')
        have rec: "scrape_query w q' s3 = (r, s')"
          using p Inr False po r3 prems1
          by (simp add: scrape_query.simps[of w q s] s2_def)
        have "length (words s3) < length (words s)"
          using words_pop[of s2 q' s3] po r3 words_priv_scrape[OF p] by (simp add: s2_def)
        from less.hyps[OF this rec] f1 f3
        show ?thesis by (simp add: s2_def)
      qed
    qed
  qed
qed

lemma scrape_loop_rule:
  assumes refl: "\<And>p. Q p None p"
    and trans: "\<And>p p' p'' r. Q p None p' \<Longrightarrow> Q p' r p'' \<Longrightarrow> Q p r p''"
    and urls: "\<And>t q s r s'. dataset_length s < max_articles s \<Longrightarrow>
        dataset_length s - t \<le> 25 \<Longrightarrow> get_article_urls w q s = (r, s') \<Longrightarrow>
        Q (t, s) (err r) (t, s')"
    and data: "\<And>t u s r s'. u \<notin> seen_urls s \<Longrightarrow> get_article_data w u s = (r, s') \<Longrightarrow>
        Q (t, s) (err r) (t, s')"
    and save: "\<And>t u title summary text s r s'.
        u \<notin> seen_urls s \<Longrightarrow> summary \<noteq> '''' \<Longrightarrow> text \<noteq> '''' \<Longrightarrow>
        save_sample (make_sample u title summary text) s = (r, s') \<Longrightarrow> Q (t, s) None (t, s')"
    and backoff: "\<And>t s. Q (t, s) None (t, long_sleep (emit (EvLog LongSleepQuery) s))"
    and pop: "\<And>t s r s'. dataset_length s < max_articles s \<Longrightarrow> dataset_length s - t \<le> 25 \<Longrightarrow>
        pop s = (r, s') \<Longrightarrow> Q (t, s) (err r) (t, s')"
    and cool: "\<And>t s. dataset_length s < max_articles s \<Longrightarrow> 25 < dataset_length s - t \<Longrightarrow>
        Q (t, s) None (dataset_length s, long_sleep (emit (EvLog LongSleepTrack) s))"
    and finish: "\<And>t s. \<not> dataset_length s < max_articles s \<Longrightarrow>
        Q (t, s) None (t, emit (EvLog (DoneScraping (dataset_length s))) s)"
  shows "scrape_loop w t s = (r, s') \<Longrightarrow> \<exists>t'. Q (t, s) (err r) (t', s')"
proof (induction "length (words s)" arbitrary: t s rule: less_induct)
  case less
  note prems1 = less.prems
  show ?case
  proof (cases "dataset_length s < max_articles s")
    case False
    with prems1 finish[OF False, of t] show ?thesis
      by (auto simp: scrape_loop.simps[of w t s])
  next
    case True
    define x where "x = (if 25 < dataset_length s - t
        then (long_sleep (emit (EvLog LongSleepTrack) s), dataset_length s) else (s, t))"
    obtain s1 t1 where x1: "(s1, t1) = x" by (cases x) auto
    have q1: "Q (t, s) None (t1, s1)"
      using x1 cool[OF True, of t] refl[of "(t, s)"] by (auto simp: x_def split: if_splits)
    have c1: "dataset_length s1 = dataset_length s" "max_articles s1 = max_articles s"
      "dataset_length s1 - t1 \<le> 25"
      using x1 by (auto simp: x_def split: if_splits)
    obtain r2 s2 where po: "pop s1 = (r2, s2)" by (cases "pop s1")
    have q2: "Q (t1, s1) (err r2) (t1, s2)"
      using pop[OF _ c1(3) po] c1 True by simp
    have q12: "Q (t, s) (err r2) (t1, s2)" using q1 q2 by (rule trans)
    have unf: "scrape_loop w t s =
        (case pop s1 of (Inl e, s2) \<Rightarrow> (Inl e, s2)
         | (Inr query, s2) \<Rightarrow>
             (case scrape_query w query s2 of (Inl e, s3) \<Rightarrow> (Inl e, s3)
              | (Inr _, s3) \<Rightarrow> scrape_loop w t1 s3))"
      using True by (subst scrape_loop.simps) (simp add: x_def[symmetric] x1[symmetric])
    show ?thesis
    proof (cases r2)
      case (Inl e)
      with prems1 po q12 show ?thesis by (auto simp: unf)
    next
      case r2: (Inr q)
      obtain r3 s3 where sq: "scrape_query w q s2 = (r3, s3)" by (cases "scrape_query w q s2")
      have c2: "dataset_length s2 < max_articles s2" "dataset_length s2 - t1 \<le> 25"
        using c1 True pop_frame[OF po] by simp_all
      have q3: "Q (t1, s2) (err r3) (t1, s3)"
      proof (rule scrape_query_rule[where Q = "\<lambda>a r b. Q (t1, a) r (t1, b)"
            and c = "dataset_length s2" and m = "max_articles s2", OF _ _ _ _ _ _ _ sq])
        show "Q (t1, s) None (t1, s)" for s by (rule refl)
      next
        fix s s' s'' r
        assume "Q (t1, s) None (t1, s')" "Q (t1, s') r (t1, s'')"
        then show "Q (t1, s) r (t1, s'')" by (rule trans)
      next
        fix q s r s'
        assume a: "dataset_length s = dataset_length s2"
          "max_articles s = max_articles s2" "get_article_urls w q s = (r, s')"
        show "Q (t1, s) (err r) (t1, s')"
          by (rule urls[OF _ _ a(3)]) (use a c2 in simp_all)
      next
        fix u s r s'
        assume "u \<notin> seen_urls s" "get_article_data w u s = (r, s')"
        then show "Q (t1, s) (err r) (t1, s')" by (rule data)
      next
        fix u ti su tx s r s'
        assume "u \<notin> seen_urls s" "su \<noteq> []" "tx \<noteq> []"
          "save_sample (make_sample u ti su tx) s = (r, s')"
        then show "Q (t1, s) None (t1, s')" by (rule save)
      next
        show "Q (t1, s) None (t1, long_sleep (emit (EvLog LongSleepQuery) s))" for s
          by (rule backoff)
      next
        fix s r s'
        assume a: "dataset_length s = dataset_length s2"
          "max_articles s = max_articles s2" "pop s = (r, s')"
        show "Q (t1, s) (err r) (t1, s')"
          by (rule pop[OF _ _ a(3)]) (use a c2 in simp_all)
      qed simp_all
      have q13: "Q (t, s) (err r3) (t1, s3)" using q12 q3 r2 by (auto intro: trans)
      show ?thesis
      proof (cases r3)
        case (Inl e)
        with prems1 po r2 sq q13 show ?thesis by (auto simp: unf)
      next
        case r3: (Inr v)
        have rec: "scrape_loop w t1 s3 = (r, s')"
          using prems1 po r2 sq r3 by (simp add: unf)
        have "words s1 = words s" using x1 by (auto simp: x_def split: if_splits)
        then have "length (words s3) < length (words s)"
          using words_pop[of s1 q s2] po r2 words_scrape_query[OF sq] by simp
        from less.hyps[OF this rec]
        obtain t' where "Q (t1, s3) (err r) (t', s')" by blast
        with q13 r3 show ?thesis by (auto intro: trans)
      qed
    qed
  qed
qed

definition short_delay :: "bool \<Rightarrow> event" where
  "short_delay dbg = (if dbg then EvSleep Short 0.1 0.15 else EvSleep Short 30 60)"

definition long_delay :: "bool \<Rightarrow> event" where
  "long_delay dbg = (if dbg then EvSleep Long 0.1 0.15 else EvSleep Long 300 420)"

definition error_status :: "response \<Rightarrow> bool" where
  "error_status response \<longleftrightarrow> 400 \<le> status_code response \<and> status_code response < 600"

lemma short_sleep_emit: "short_sleep s = emit (short_delay (debug s)) s"
  by (simp add: short_sleep_def short_delay_def)

lemma long_sleep_emit: "long_sleep s = emit (long_delay (debug s)) s"
  by (simp add: long_sleep_def long_delay_def)

lemma get_article_urls_shape:
  assumes "get_article_urls w q s = (r, s')"
  shows "(\<not> driver s \<and> r = Inl ValueError \<and> s' = s) \<or>
         (driver s \<and> (\<exists>us. r = Inr us) \<and>
          (\<exists>es. trace s' = trace s @ [EvDriverGet (base_url q), short_delay (debug s)] @ es \<and>
                (es = [] \<or> es = [EvLog ClickedButton] \<or> es = [EvLog ClickError])))"
  using assms
  by (auto simp: get_article_urls_def Let_def short_sleep_emit click_cookie_button_def
      split: if_splits)

lemma get_article_data_shape:
  assumes "get_article_data w u s = (r, s')"
  shows "trace s' = trace s @ [short_delay (debug s), EvSessionGet u] @
           (if r = Inr None then [EvLog (MissingText u)] else [])"
    and "(case r of Inl e \<Rightarrow>
            error_status (http_get w (Suc (length (trace s))) u) \<and>
            e = HTTPError (status_code (http_get w (Suc (length (trace s))) u))
          | Inr _ \<Rightarrow> \<not> error_status (http_get w (Suc (length (trace s))) u))"
proof -
  define resp where "resp = http_get w (Suc (length (trace s))) u"
  define s2 where "s2 = emit (EvSessionGet u) (emit (short_delay (debug s)) s)"
  have eq: "get_article_data w u s =
      (if error_status resp then (Inl (HTTPError (status_code resp)), s2)
       else if get_text (soup resp) = [] \<or> get_summary (soup resp) = []
         then (Inr None, emit (EvLog (MissingText u)) s2)
         else (Inr (Some (make_sample u (get_title (soup resp)) (get_summary (soup resp))
                 (get_text (soup resp)))), s2))"
    by (simp add: get_article_data_def Let_def short_sleep_emit now_def error_status_def
        resp_def s2_def)
  consider (a) "error_status resp"
    | (b) "\<not> error_status resp" "get_text (soup resp) = [] \<or> get_summary (soup resp) = []"
    | (c) "\<not> error_status resp" "\<not> (get_text (soup resp) = [] \<or> get_summary (soup resp) = [])"
    by blast
  then have "trace s' = trace s @ [short_delay (debug s), EvSessionGet u] @
           (if r = Inr None then [EvLog (MissingText u)] else []) \<and>
    (case r of Inl e \<Rightarrow> error_status resp \<and> e = HTTPError (status_code resp)
          | Inr _ \<Rightarrow> \<not> error_status resp)"
  proof cases
    case a
    with assms eq have "r = Inl (HTTPError (status_code resp))" "s' = s2" by simp_all
    with a show ?thesis by (simp add: s2_def)
  next
    case b
    with assms eq have "r = Inr None" "s' = emit (EvLog (MissingText u)) s2" by simp_all
    with b show ?thesis by (simp add: s2_def)
  next
    case c
    with assms eq have "r = Inr (Some (make_sample u (get_title (soup resp))
       (get_summary (soup resp)) (get_text (soup resp))))" "s' = s2" by simp_all
    with c show ?thesis by (simp add: s2_def)
  qed
  then show "trace s' = trace s @ [short_delay (debug s), EvSessionGet u] @
           (if r = Inr None then [EvLog (MissingText u)] else [])"
    and "(case r of Inl e \<Rightarrow>
            error_status (http_get w (Suc (length (trace s))) u) \<and>
            e = HTTPError (status_code (http_get w (Suc (length (trace s))) u))
          | Inr _ \<Rightarrow> \<not> error_status (http_get w (Suc (length (trace s))) u))"
    by (simp_all add: resp_def split: sum.splits)
qed

lemma save_sample_shape:
  assumes "save_sample (make_sample u ti su tx) s = (r, s')"
  shows "trace s' = trace s @ (if dataset_file s = None then [EvTouch] else []) @
           [EvWrite (make_sample u ti su tx)] @
           (if (dataset_length s + 1) mod 10 = 0
            then [EvLog (Progress (dataset_length s + 1) (max_articles s))] else [])"
    and "dataset_file s' = Some ((case dataset_file s of None \<Rightarrow> [] | Some xs \<Rightarrow> xs) @
           [make_sample u ti su tx])"
  using assms
  by (auto simp: save_sample_def Let_def emit_def split: if_splits option.splits)

lemma pop_shape:
  assumes "pop s = (r, s')"
  shows "(words s = [] \<and> r = Inl IndexError \<and> s' = s) \<or>
         (words s \<noteq> [] \<and> r = Inr (last (words s)) \<and> words s' = butlast (words s) \<and>
          trace s' = trace s @ [EvPop (last (words s))])"
  using assms by (auto simp: pop_def split: if_splits)

definition records :: "scraper \<Rightarrow> sample list" where
  "records s = (case dataset_file s of None \<Rightarrow> [] | Some samples \<Rightarrow> samples)"

definition record_urls :: "sample list \<Rightarrow> string list" where
  "record_urls samples = List.map_filter (\<lambda>sample. sample ''url'') samples"

definition has_url :: "sample \<Rightarrow> bool" where
  "has_url sample \<longleftrightarrow> sample ''url'' \<noteq> None"

definition store_inv :: "scraper \<Rightarrow> bool" where
  "store_inv s \<longleftrightarrow>
     dataset_length s = int (length (records s)) \<and>
     seen_urls s = set (record_urls (records s)) \<and>
     list_all has_url (records s)"

lemma has_url_make_sample [simp]: "has_url (make_sample u title summary text)"
  by (simp add: has_url_def)

definition events_from :: "scraper \<Rightarrow> scraper \<Rightarrow> event list" where
  "events_from s s' = drop (length (trace s)) (trace s')"

fun written :: "event \<Rightarrow> sample list" where
  "written (EvWrite sample) = [sample]"
| "written _ = []"

definition writes :: "event list \<Rightarrow> sample list" where
  "writes es = concat (map written es)"

fun monitor :: "('a \<Rightarrow> event \<Rightarrow> 'a option) \<Rightarrow> 'a \<Rightarrow> event list \<Rightarrow> 'a option" where
  "monitor step a [] = Some a"
| "monitor step a (e # es) =
     (case step a e of None \<Rightarrow> None | Some a' \<Rightarrow> monitor step a' es)"

fun url_step :: "string set \<Rightarrow> event \<Rightarrow> string set option" where
  "url_step seen (EvSessionGet u) = (if u \<in> seen then None else Some seen)"
| "url_step seen (EvWrite sample) =
     (case sample ''url'' of
        None \<Rightarrow> None
      | Some u \<Rightarrow> if u \<in> seen then None else Some (insert u seen))"
| "url_step seen _ = Some seen"

definition obeys :: "('a \<Rightarrow> event \<Rightarrow> 'a option) \<Rightarrow> 'a \<Rightarrow> scraper \<Rightarrow> 'a \<Rightarrow> scraper \<Rightarrow> bool" where
  "obeys step a s a' s' \<longleftrightarrow> (\<exists>es. trace s' = trace s @ es \<and> monitor step a es = Some a')"

lemma monitor_append:
  "monitor step a (es @ es') =
   (case monitor step a es of None \<Rightarrow> None | Some a' \<Rightarrow> monitor step a' es')"
  by (induction es arbitrary: a) (auto split: option.splits)

lemma obeys_refl: "obeys step a s a s"
  by (simp add: obeys_def)

lemma obeys_trans:
  "obeys step a s a' s' \<Longrightarrow> obeys step a' s' a'' s'' \<Longrightarrow> obeys step a s a'' s''"
  by (auto simp: obeys_def monitor_append)

lemma obeys_events:
  "obeys step a s a' s' \<Longrightarrow> monitor step a (events_from s s') = Some a'"
  by (auto simp: obeys_def events_from_def)

lemma obeys_prefix: "obeys step a s a' s' \<Longrightarrow> trace s' = trace s @ events_from s s'"
  by (auto simp: obeys_def events_from_def)

lemma record_urls_append [simp]:
  "record_urls (xs @ ys) = record_urls xs @ record_urls ys"
  by (simp add: record_urls_def map_filter_def)

lemma record_urls_simps [simp]:
  "record_urls [] = []"
  "record_urls (x # xs) = (case x ''url'' of None \<Rightarrow> [] | Some u \<Rightarrow> [u]) @ record_urls xs"
  by (simp_all add: record_urls_def map_filter_simps split: option.splits)

lemma writes_simps [simp]:
  "writes [] = []"
  "writes (e # es) = written e @ writes es"
  "writes (es @ es') = writes es @ writes es'"
  by (simp_all add: writes_def)

lemma url_monitor_writes:
  "monitor url_step seen es = Some seen' \<Longrightarrow>
   distinct (record_urls (writes es)) \<and> set (record_urls (writes es)) \<inter> seen = {} \<and>
   seen' = seen \<union> set (record_urls (writes es))"
proof (induction es arbitrary: seen)
  case Nil
  then show ?case by (simp add: writes_def record_urls_def map_filter_simps)
next
  case (Cons e es)
  show ?case
  proof (cases e)
    case (EvWrite x)
    with Cons.prems obtain u where u: "x ''url'' = Some u" "u \<notin> seen"
      and m: "monitor url_step (insert u seen) es = Some seen'"
      by (auto split: option.splits if_splits)
    from Cons.IH[OF m] u show ?thesis
      by (auto simp: EvWrite writes_def record_urls_def map_filter_simps)
  next
    case (EvSessionGet u)
    with Cons.prems have "monitor url_step seen es = Some seen'" by (auto split: if_splits)
    from Cons.IH[OF this] show ?thesis by (simp add: EvSessionGet writes_def)
  qed (use Cons in \<open>auto simp: writes_def\<close>)
qed

text \<open>The relation that the crawl keeps between two of its states, for the URL claims.\<close>

definition url_rel :: "scraper \<Rightarrow> scraper \<Rightarrow> bool" where
  "url_rel s s' \<longleftrightarrow>
     (store_inv s \<longrightarrow>
        store_inv s' \<and>
        (\<exists>es. trace s' = trace s @ es \<and>
              monitor url_step (seen_urls s) es = Some (seen_urls s') \<and>
              records s' = records s @ writes es))"

lemma url_rel_refl: "url_rel s s"
  by (simp add: url_rel_def writes_def)

lemma url_rel_trans: "url_rel s s' \<Longrightarrow> url_rel s' s'' \<Longrightarrow> url_rel s s''"
  unfolding url_rel_def
  by (auto simp: monitor_append writes_def) 

lemma written_delay [simp]:
  "written (short_delay d) = []"
  "written (long_delay d) = []"
  by (simp_all add: short_delay_def long_delay_def)

lemma url_step_neutral [simp]:
  "url_step seen (short_delay d) = Some seen"
  "url_step seen (long_delay d) = Some seen"
  by (simp_all add: short_delay_def long_delay_def)

lemma url_relI:
  assumes "trace s' = trace s @ es"
    and "store_inv s \<Longrightarrow> store_inv s'"
    and "store_inv s \<Longrightarrow> monitor url_step (seen_urls s) es = Some (seen_urls s')"
    and "records s' = records s @ writes es"
  shows "url_rel s s'"
  using assms unfolding url_rel_def by blast

lemma url_rel_urls:
  assumes "get_article_urls w q s = (r, s')"
  shows "url_rel s s'"
proof -
  note f = get_article_urls_frame[OF assms]
  from get_article_urls_shape[OF assms] consider "s' = s"
    | es where "trace s' = trace s @ [EvDriverGet (base_url q), short_delay (debug s)] @ es"
      "es = [] \<or> es = [EvLog ClickedButton] \<or> es = [EvLog ClickError]"
    by blast
  then show ?thesis
  proof cases
    case 1
    then show ?thesis by (simp add: url_rel_refl)
  next
    case 2
    from 2(1) show ?thesis
      by (rule url_relI) (use f 2(2) in \<open>(elim disjE; simp add: store_inv_def records_def)+\<close>)
  qed
qed

lemma url_rel_data:
  assumes "u \<notin> seen_urls s" and "get_article_data w u s = (r, s')"
  shows "url_rel s s'"
proof -
  note f = get_article_data_frame[OF assms(2)]
  from get_article_data_shape(1)[OF assms(2)] show ?thesis
    by (rule url_relI) (use f assms(1) in \<open>simp_all add: store_inv_def records_def\<close>)
qed

lemma url_rel_save:
  assumes "u \<notin> seen_urls s" and "save_sample (make_sample u ti su tx) s = (r, s')"
  shows "url_rel s s'"
proof -
  note f = save_sample_ok[OF assms(2)]
  note sh = save_sample_shape[OF assms(2)]
  from sh(1) show ?thesis
    by (rule url_relI)
      (use f sh(2) assms(1) in \<open>simp_all add: store_inv_def records_def split: option.splits\<close>)
qed

lemma url_rel_pop:
  assumes "pop s = (r, s')"
  shows "url_rel s s'"
proof -
  note f = pop_frame[OF assms]
  from pop_shape[OF assms] show ?thesis
  proof (elim disjE conjE)
    assume "s' = s"
    then show ?thesis by (simp add: url_rel_refl)
  next
    assume "trace s' = trace s @ [EvPop (last (words s))]"
    then show ?thesis
      by (rule url_relI) (use f in \<open>simp_all add: store_inv_def records_def\<close>)
  qed
qed

lemma url_rel_emit_log: "url_rel s (emit (EvLog m) s)"
  by (rule url_relI[where es = "[EvLog m]"]) (simp_all add: store_inv_def records_def)

lemma url_rel_long_sleep: "url_rel s (long_sleep (emit (EvLog m) s))"
  by (rule url_relI[where es = "[EvLog m, long_delay (debug s)]"])
    (simp_all add: store_inv_def records_def long_sleep_emit)

lemma url_rel_scrape_loop:
  assumes "scrape_loop w t s = (r, s')"
  shows "url_rel s s'"
proof -
  define Q where "Q = (\<lambda>(p :: int \<times> scraper) (r :: error option) (p' :: int \<times> scraper).
    url_rel (snd p) (snd p'))"
  have "\<exists>t'. Q (t, s) (err r) (t', s')"
  proof (rule scrape_loop_rule[of Q, OF _ _ _ _ _ _ _ _ _ assms])
    show "Q p r p'' " if "Q p None p'" "Q p' r p''" for p p' p'' r
      using that by (auto simp: Q_def elim: url_rel_trans)
  qed (simp_all add: Q_def url_rel_refl url_rel_urls url_rel_data url_rel_save
      url_rel_pop url_rel_emit_log url_rel_long_sleep)
  then show ?thesis by (simp add: Q_def)
qed

section \<open>Claims\<close>

lemma ignore_loop_acc:
  "ignore_loop xs seen acc =
   acc @ map (nth xs)
     (filter (\<lambda>i. trimmed_title (xs ! i) \<noteq> '''' \<and>
                   trimmed_title (xs ! i) \<notin> seen \<union> trimmed_title ` set (take i xs))
        [0..<length xs])"
proof (induction xs arbitrary: seen acc)
  case Nil
  then show ?case by simp
next
  case (Cons x xs)
  have up: "[0..<length (x # xs)] = 0 # map Suc [0..<length xs]"
    by (simp add: upt_conv_Cons map_Suc_upt del: upt_Suc)
  show ?case
    unfolding up
    by (simp add: Cons.IH Let_def filter_map comp_def trimmed_title_def[symmetric] del: upt_Suc)
      (auto intro!: arg_cong[where f = "map ((!) xs)"] filter_cong)
qed

text \<open>
  Claim C3. The exporter keeps exactly the samples that are the first occurrence of a
  non-empty trimmed title, in storage order: a sample is dropped when its trimmed title
  is empty or when an earlier sample has the same trimmed title. On the four samples of
  the specification's example it returns the first and the last.
\<close>

theorem ignore_duplicates_keeps_first_titles:
  "ignore_duplicates samples = keep_first_titles samples"
  by (simp add: ignore_duplicates_def keep_first_titles_def ignore_loop_acc
      first_occurrence_def[abs_def])

theorem ignore_duplicates_example:
  "ignore_duplicates
     [[''url'' \<mapsto> ''a'', ''title'' \<mapsto> ''X''], [''url'' \<mapsto> ''b'', ''title'' \<mapsto> ''X''],
      [''url'' \<mapsto> ''c'', ''title'' \<mapsto> ''''], [''url'' \<mapsto> ''d'', ''title'' \<mapsto> ''Y'']]
   = [[''url'' \<mapsto> ''a'', ''title'' \<mapsto> ''X''], [''url'' \<mapsto> ''d'', ''title'' \<mapsto> ''Y'']]"
  unfolding ignore_duplicates_keeps_first_titles
  by (simp add: keep_first_titles_def first_occurrence_def trimmed_title_def dict_get_def
      strip_def isspace_def upt_conv_Cons)

definition stored :: "sample list option \<Rightarrow> sample list" where
  "stored dataset = (case dataset of None \<Rightarrow> [] | Some samples \<Rightarrow> samples)"

lemma read_records_ok:
  assumes "list_all has_url samples" and "read_records samples s = (r, s')"
  shows "r = Inr () \<and> dataset_length s' = dataset_length s + int (length samples) \<and>
         seen_urls s' = seen_urls s \<union> set (record_urls samples) \<and>
         dataset_file s' = dataset_file s \<and> trace s' = trace s \<and>
         max_articles s' = max_articles s \<and> debug s' = debug s \<and> driver s' = driver s"
  using assms
proof (induction samples arbitrary: s)
  case Nil
  then show ?case by auto
next
  case (Cons x xs)
  from Cons.prems(1) obtain u where u: "x ''url'' = Some u" by (auto simp: has_url_def)
  define s1 where "s1 = s\<lparr>seen_urls := insert u (seen_urls s),
      dataset_length := dataset_length s + 1\<rparr>"
  have "read_records xs s1 = (r, s')" using Cons.prems(2) u by (simp add: s1_def)
  from Cons.IH[OF _ this] Cons.prems(1) u show ?case by (simp add: s1_def)
qed

text \<open>
  Claim C1. Constructing the scraper rebuilds the crawl state from the dataset dataset:
  with no dataset the count is 0 and no URL is seen; with a dataset whose records all carry
  a \<open>url\<close> (as every record written by the scraper does), construction succeeds, the
  count is the number of records and the seen URLs are exactly the URLs of the records.
\<close>

theorem init_recovers_crawl_state:
  assumes "init dataset maxa headless dbg shuffled = (r, s)"
    and "list_all has_url (stored dataset)"
  shows "r = Inr () \<and>
         dataset_length s = int (length (stored dataset)) \<and>
         seen_urls s = set (record_urls (stored dataset)) \<and>
         (dataset = None \<longrightarrow> dataset_length s = 0 \<and> seen_urls s = {}) \<and>
         dataset_file s = dataset \<and> words s = shuffled \<and> store_inv s"
proof (cases dataset)
  case None
  with assms show ?thesis
    by (auto simp: init_def get_dataset_info_def stored_def store_inv_def records_def)
next
  case (Some samples)
  define s0 where "s0 = \<lparr>chrome_options = setup_chrome_options headless,
                driver = False, cookie_button_clicked = False, debug = dbg,
                max_articles = maxa, dataset_length = 0, seen_urls = {}, words = [],
                dataset_file = Some samples, trace = []\<rparr>"
  obtain r1 s1 where rr: "read_records samples s0 = (r1, s1)"
    by (cases "read_records samples s0")
  from assms(2) Some have "list_all has_url samples" by (simp add: stored_def)
  note ok = read_records_ok[OF this rr]
  have df: "dataset_file s0 = Some samples" by (simp add: s0_def)
  have "init dataset maxa headless dbg shuffled = (Inr (), s1\<lparr>words := shuffled\<rparr>)"
    using rr ok Some df
    by (simp add: init_def get_dataset_info_def s0_def[symmetric] Let_def)
  with assms(1) have "r = Inr ()" "s = s1\<lparr>words := shuffled\<rparr>" by simp_all
  with ok Some \<open>list_all has_url samples\<close> show ?thesis
    by (simp add: stored_def store_inv_def records_def s0_def)
qed

theorem init_recovers_crawl_state_witness:
  "list_all has_url (stored (Some [[''url'' \<mapsto> ''u1'', ''title'' \<mapsto> ''A''],
       [''url'' \<mapsto> ''u2''], [''url'' \<mapsto> ''u1'']])) \<and>
   fst (init (Some [[''url'' \<mapsto> ''u1'', ''title'' \<mapsto> ''A''],
       [''url'' \<mapsto> ''u2''], [''url'' \<mapsto> ''u1'']]) 10 True False [''a'', ''b'']) = Inr () \<and>
   dataset_length (snd (init (Some [[''url'' \<mapsto> ''u1'', ''title'' \<mapsto> ''A''],
       [''url'' \<mapsto> ''u2''], [''url'' \<mapsto> ''u1'']]) 10 True False [''a'', ''b''])) = 3 \<and>
   seen_urls (snd (init (Some [[''url'' \<mapsto> ''u1'', ''title'' \<mapsto> ''A''],
       [''url'' \<mapsto> ''u2''], [''url'' \<mapsto> ''u1'']]) 10 True False [''a'', ''b''])) = {''u1'', ''u2''} \<and>
   dataset_length (snd (init None 10 True False [''a'', ''b''])) = 0 \<and>
   seen_urls (snd (init None 10 True False [''a'', ''b''])) = {}"
  using init_recovers_crawl_state[of "Some [[''url'' \<mapsto> ''u1'', ''title'' \<mapsto> ''A''],
       [''url'' \<mapsto> ''u2''], [''url'' \<mapsto> ''u1'']]" 10 True False "[''a'', ''b'']"
       "fst (init (Some [[''url'' \<mapsto> ''u1'', ''title'' \<mapsto> ''A''],
       [''url'' \<mapsto> ''u2''], [''url'' \<mapsto> ''u1'']]) 10 True False [''a'', ''b''])"
       "snd (init (Some [[''url'' \<mapsto> ''u1'', ''title'' \<mapsto> ''A''],
       [''url'' \<mapsto> ''u2''], [''url'' \<mapsto> ''u1'']]) 10 True False [''a'', ''b''])"]
    init_recovers_crawl_state[of None 10 True False "[''a'', ''b'']"
       "fst (init None 10 True False [''a'', ''b''])"
       "snd (init None 10 True False [''a'', ''b''])"]
  by (simp add: stored_def has_url_def insert_commute)

definition demo_page :: article_page where
  "demo_page = \<lparr>title_element = Some ''Antraste'', content_element = Some ''Tekstas'',
     summary_element = Some ''Santrauka''\<rparr>"

definition demo_web :: web where
  "demo_web =
     \<lparr>page_links = (\<lambda>t url.
        if url = base_url ''nieko'' then []
        else if url = base_url ''du'' then [''/a/1'', ''/a/1'', ''https://www.lrytas.lt/a/2'']
        else [''/a/'' @ drop 31 url]),
      domain_of = (\<lambda>link. if take 8 link = ''https://'' then ''lrytas'' else ''''),
      button_clickable = (\<lambda>t. False),
      http_get = (\<lambda>t url. \<lparr>status_code = 200, soup = demo_page\<rparr>)\<rparr>"

lemmas run_defs = main_def init_def get_dataset_info_def enter_def scrape_def
  scrape_loop.simps scrape_query.simps priv_scrape_def get_article_urls_def pop_def emit_def
  long_sleep_def short_sleep_def base_url_def article_url_of_def now_def
  click_cookie_button_def get_article_data_def get_title_def get_text_def get_summary_def
  make_sample_def save_sample_def Let_def setup_chrome_options_def

lemma url_monitor_has_url:
  "monitor url_step seen es = Some seen' \<Longrightarrow> list_all has_url (writes es)"
proof (induction es arbitrary: seen)
  case Nil
  then show ?case by simp
next
  case (Cons e es)
  then show ?case
    by (cases e) (auto simp: has_url_def split: option.splits if_splits)
qed

text \<open>
  Claim C2. In every run of the crawl loop that starts from a recovered state (also a
  resumed one, and also a run that ends with an exception), the events of the run pass
  the URL monitor: every article fetch is of a URL that is not yet seen, every write is
  of a sample whose URL is not yet seen, and the write marks that URL as seen. So the
  run only appends to the store, the URLs it appends are pairwise different and none of
  them was in the store before, and at the end the count is the number of records and
  the seen URLs are the URLs of the records.
\<close>

theorem scrape_never_appends_a_url_twice:
  assumes "scrape w s = (r, s')" and "store_inv s"
  shows "trace s' = trace s @ events_from s s' \<and>
         monitor url_step (seen_urls s) (events_from s s') = Some (seen_urls s') \<and>
         records s' = records s @ writes (events_from s s') \<and>
         distinct (record_urls (writes (events_from s s'))) \<and>
         set (record_urls (writes (events_from s s'))) \<inter> set (record_urls (records s)) = {} \<and>
         seen_urls s' = seen_urls s \<union> set (record_urls (writes (events_from s s'))) \<and>
         dataset_length s' = int (length (records s')) \<and>
         seen_urls s' = set (record_urls (records s')) \<and>
         list_all has_url (records s')"
proof -
  from assms(1) have "url_rel s s'" unfolding scrape_def by (rule url_rel_scrape_loop)
  with assms(2) obtain es where inv: "store_inv s'" and es: "trace s' = trace s @ es"
    and m: "monitor url_step (seen_urls s) es = Some (seen_urls s')"
    and rec: "records s' = records s @ writes es"
    unfolding url_rel_def by blast
  from es have ev: "events_from s s' = es" by (simp add: events_from_def)
  from url_monitor_writes[OF m] assms(2) inv es m rec show ?thesis
    by (simp add: ev store_inv_def)
qed

theorem scrape_never_appends_a_url_twice_witness:
  "store_inv (enter (snd (init (Some [make_sample ''https://www.lrytas.lt/a/2'' ''T'' ''S'' ''X''])
       3 True False [''trys'', ''nieko'', ''du'']))) \<and>
   record_urls (records (snd (main demo_web
       (Some [make_sample ''https://www.lrytas.lt/a/2'' ''T'' ''S'' ''X''])
       3 True False [''trys'', ''nieko'', ''du'']))) =
     [''https://www.lrytas.lt/a/2'', ''https://www.lrytas.lt/a/1'', ''https://www.lrytas.lt/a/trys''] \<and>
   dataset_length (snd (main demo_web
       (Some [make_sample ''https://www.lrytas.lt/a/2'' ''T'' ''S'' ''X''])
       3 True False [''trys'', ''nieko'', ''du''])) = 3"
proof -
  define s0 where "s0 = enter (snd (init (Some [make_sample ''https://www.lrytas.lt/a/2'' ''T'' ''S'' ''X''])
       3 True False [''trys'', ''nieko'', ''du'']))"
  have inv: "store_inv s0"
    by (simp add: s0_def init_def get_dataset_info_def enter_def store_inv_def records_def
        has_url_def make_sample_def)
  have run: "scrape demo_web s0 = (fst (scrape demo_web s0), snd (scrape demo_web s0))"
    by simp
  have m: "main demo_web (Some [make_sample ''https://www.lrytas.lt/a/2'' ''T'' ''S'' ''X''])
       3 True False [''trys'', ''nieko'', ''du''] = scrape demo_web s0"
    by (simp add: main_def s0_def init_def get_dataset_info_def make_sample_def)
  have urls: "record_urls (writes (events_from s0 (snd (scrape demo_web s0)))) =
      [''https://www.lrytas.lt/a/1'', ''https://www.lrytas.lt/a/trys'']"
    by (simp add: s0_def events_from_def run_defs demo_web_def demo_page_def)
  have old: "record_urls (records s0) = [''https://www.lrytas.lt/a/2'']"
    by (simp add: s0_def init_def get_dataset_info_def enter_def records_def make_sample_def)
  have new: "length (writes (events_from s0 (snd (scrape demo_web s0)))) = 2"
    by (simp add: s0_def events_from_def run_defs demo_web_def demo_page_def)
  have len: "length (records s0) = 1"
    by (simp add: s0_def init_def get_dataset_info_def enter_def records_def)
  from scrape_never_appends_a_url_twice[OF run inv] urls old inv new len show ?thesis
    by (simp add: m s0_def[symmetric])
qed

fun popped :: "event \<Rightarrow> string list" where
  "popped (EvPop query) = [query]"
| "popped _ = []"

definition pops :: "event list \<Rightarrow> string list" where
  "pops es = concat (map popped es)"

text \<open>
  The count monitor: the state is the number of records. A query is drawn and a search
  page is loaded only while the count is below the maximum; the end of the crawl is
  logged only when it is not, with the count.
\<close>

fun count_step :: "int \<Rightarrow> int \<Rightarrow> event \<Rightarrow> int option" where
  "count_step m c (EvPop query) = (if c < m then Some c else None)"
| "count_step m c (EvDriverGet url) = (if c < m then Some c else None)"
| "count_step m c (EvWrite sample) = Some (c + 1)"
| "count_step m c (EvLog (DoneScraping n)) = (if m \<le> c \<and> n = c then Some c else None)"
| "count_step m c _ = Some c"

text \<open>
  The cooldown monitor: the state is the number of records written since the last batch
  cooldown (or since the start), and what the log has just announced.
\<close>

datatype announced = Nothing | Cooldown | Backoff

fun cooldown_step :: "int \<times> announced \<Rightarrow> event \<Rightarrow> (int \<times> announced) option" where
  "cooldown_step (n, Nothing) (EvWrite sample) = Some (n + 1, Nothing)"
| "cooldown_step (n, Nothing) (EvLog LongSleepTrack) =
     (if 25 < n then Some (n, Cooldown) else None)"
| "cooldown_step (n, Nothing) (EvLog LongSleepQuery) = Some (n, Backoff)"
| "cooldown_step (n, Nothing) (EvSleep Long lo hi) = None"
| "cooldown_step (n, Nothing) (EvPop query) = (if n \<le> 25 then Some (n, Nothing) else None)"
| "cooldown_step (n, Nothing) e = Some (n, Nothing)"
| "cooldown_step (n, Cooldown) (EvSleep Long lo hi) = Some (0, Nothing)"
| "cooldown_step (n, Backoff) (EvSleep Long lo hi) = Some (n, Nothing)"
| "cooldown_step (n, a) e = None"

text \<open>The pool monitor: the state is the word pool; a drawn query is its last word.\<close>

fun pool_step :: "string list \<Rightarrow> event \<Rightarrow> string list option" where
  "pool_step pool (EvPop query) =
     (if pool \<noteq> [] \<and> query = last pool then Some (butlast pool) else None)"
| "pool_step pool _ = Some pool"

definition pace_rel :: "int \<times> scraper \<Rightarrow> int \<times> scraper \<Rightarrow> bool" where
  "pace_rel p p' \<longleftrightarrow>
     max_articles (snd p') = max_articles (snd p) \<and>
     (\<exists>es. trace (snd p') = trace (snd p) @ es \<and>
        monitor (count_step (max_articles (snd p))) (dataset_length (snd p)) es =
          Some (dataset_length (snd p')) \<and>
        monitor cooldown_step (dataset_length (snd p) - fst p, Nothing) es =
          Some (dataset_length (snd p') - fst p', Nothing) \<and>
        monitor pool_step (words (snd p)) es = Some (words (snd p')))"

lemma delay_steps [simp]:
  "count_step m c (short_delay d) = Some c"
  "count_step m c (long_delay d) = Some c"
  "cooldown_step (n, Nothing) (short_delay d) = Some (n, Nothing)"
  "cooldown_step (n, Cooldown) (long_delay d) = Some (0, Nothing)"
  "cooldown_step (n, Backoff) (long_delay d) = Some (n, Nothing)"
  "pool_step pool (short_delay d) = Some pool"
  "pool_step pool (long_delay d) = Some pool"
  by (simp_all add: short_delay_def long_delay_def)

lemma pace_relI:
  assumes "trace s' = trace s @ es"
    and "max_articles s' = max_articles s"
    and "monitor (count_step (max_articles s)) (dataset_length s) es = Some (dataset_length s')"
    and "monitor cooldown_step (dataset_length s - t, Nothing) es =
          Some (dataset_length s' - t', Nothing)"
    and "monitor pool_step (words s) es = Some (words s')"
  shows "pace_rel (t, s) (t', s')"
  using assms unfolding pace_rel_def by auto

lemma pace_rel_refl: "pace_rel p p"
  by (simp add: pace_rel_def)

lemma pace_rel_trans: "pace_rel p p' \<Longrightarrow> pace_rel p' p'' \<Longrightarrow> pace_rel p p''"
  unfolding pace_rel_def by (auto simp: monitor_append)

lemma pace_rel_urls:
  assumes "dataset_length s < max_articles s" and "get_article_urls w q s = (r, s')"
  shows "pace_rel (t, s) (t, s')"
proof -
  note f = get_article_urls_frame[OF assms(2)]
  note wd = words_get_article_urls[OF assms(2)]
  from get_article_urls_shape[OF assms(2)] consider "s' = s"
    | es where "trace s' = trace s @ [EvDriverGet (base_url q), short_delay (debug s)] @ es"
      "es = [] \<or> es = [EvLog ClickedButton] \<or> es = [EvLog ClickError]"
    by blast
  then show ?thesis
  proof cases
    case 1
    then show ?thesis by (simp add: pace_rel_refl)
  next
    case 2
    from 2(1) show ?thesis
      by (rule pace_relI) (use f wd assms(1) 2(2) in \<open>(elim disjE; simp)+\<close>)
  qed
qed

lemma pace_rel_data:
  assumes "get_article_data w u s = (r, s')"
  shows "pace_rel (t, s) (t, s')"
proof -
  note f = get_article_data_frame[OF assms]
  note wd = words_get_article_data[OF assms]
  from get_article_data_shape(1)[OF assms] show ?thesis
    by (rule pace_relI) (use f wd in simp_all)
qed

lemma pace_rel_save:
  assumes "save_sample (make_sample u ti su tx) s = (r, s')"
  shows "pace_rel (t, s) (t, s')"
proof -
  note f = save_sample_ok[OF assms] save_sample_frame[OF assms]
  note wd = words_save_sample[OF assms]
  from save_sample_shape(1)[OF assms] show ?thesis
    by (rule pace_relI) (use f wd in simp_all)
qed

lemma pace_rel_pop:
  assumes "dataset_length s < max_articles s" and "dataset_length s - t \<le> 25"
    and "pop s = (r, s')"
  shows "pace_rel (t, s) (t, s')"
proof -
  note f = pop_frame[OF assms(3)]
  from pop_shape[OF assms(3)] consider "s' = s"
    | "words s \<noteq> []" "words s' = butlast (words s)"
      "trace s' = trace s @ [EvPop (last (words s))]"
    by blast
  then show ?thesis
  proof cases
    case 1
    then show ?thesis by (simp add: pace_rel_refl)
  next
    case 2
    from 2(3) show ?thesis
      by (rule pace_relI) (use f assms(1,2) 2(1,2) in simp_all)
  qed
qed

lemma pace_rel_backoff: "pace_rel (t, s) (t, long_sleep (emit (EvLog LongSleepQuery) s))"
  by (rule pace_relI[where es = "[EvLog LongSleepQuery, long_delay (debug s)]"])
    (simp_all add: long_sleep_emit)

lemma pace_rel_cool:
  "25 < dataset_length s - t \<Longrightarrow>
   pace_rel (t, s) (dataset_length s, long_sleep (emit (EvLog LongSleepTrack) s))"
  by (rule pace_relI[where es = "[EvLog LongSleepTrack, long_delay (debug s)]"])
    (simp_all add: long_sleep_emit)

lemma pace_rel_finish:
  "\<not> dataset_length s < max_articles s \<Longrightarrow>
   pace_rel (t, s) (t, emit (EvLog (DoneScraping (dataset_length s))) s)"
  by (rule pace_relI[where es = "[EvLog (DoneScraping (dataset_length s))]"]) simp_all

lemma pace_rel_scrape_loop:
  assumes "scrape_loop w t s = (r, s')"
  shows "\<exists>t'. pace_rel (t, s) (t', s')"
proof -
  define Q where "Q = (\<lambda>(p :: int \<times> scraper) (r :: error option) (p' :: int \<times> scraper).
    pace_rel p p')"
  have "\<exists>t'. Q (t, s) (err r) (t', s')"
  proof (rule scrape_loop_rule[of Q, OF _ _ _ _ _ _ _ _ _ assms])
    show "Q p r p'' " if "Q p None p'" "Q p' r p''" for p p' p'' r
      using that by (auto simp: Q_def elim: pace_rel_trans)
  qed (simp_all add: Q_def pace_rel_refl pace_rel_urls pace_rel_data pace_rel_save
      pace_rel_pop pace_rel_backoff pace_rel_cool pace_rel_finish)
  then show ?thesis by (simp add: Q_def)
qed

lemma pops_simps [simp]:
  "pops [] = []"
  "pops (e # es) = popped e @ pops es"
  "pops (es @ es') = pops es @ pops es'"
  by (simp_all add: pops_def)

lemma count_monitor_writes:
  "monitor (count_step m) c es = Some c' \<Longrightarrow> c' = c + int (length (writes es))"
proof (induction es arbitrary: c)
  case Nil
  then show ?case by simp
next
  case (Cons e es)
  obtain c1 where c1: "count_step m c e = Some c1" and m: "monitor (count_step m) c1 es = Some c'"
    using Cons.prems by (auto split: option.splits)
  have "c1 = c + int (length (written e))"
    using c1 by (cases "(m, c, e)" rule: count_step.cases) (auto split: if_splits)
  with Cons.IH[OF m] show ?case by simp
qed

lemma pool_monitor_pops:
  "monitor pool_step pool es = Some pool' \<Longrightarrow> pool = pool' @ rev (pops es)"
proof (induction es arbitrary: pool)
  case Nil
  then show ?case by simp
next
  case (Cons e es)
  obtain p1 where p1: "pool_step pool e = Some p1" and m: "monitor pool_step p1 es = Some pool'"
    using Cons.prems by (auto split: option.splits)
  have "pool = p1 @ rev (popped e)"
    using p1 by (cases "(pool, e)" rule: pool_step.cases) (auto split: if_splits)
  with Cons.IH[OF m] show ?case by simp
qed

lemma scrape_loop_returns:
  "scrape_loop w t s = (Inr v, s') \<Longrightarrow>
   \<exists>s1. s' = emit (EvLog (DoneScraping (dataset_length s1))) s1 \<and>
        max_articles s1 \<le> dataset_length s1"
proof (induction "length (words s)" arbitrary: t s rule: less_induct)
  case less
  show ?case
  proof (cases "dataset_length s < max_articles s")
    case False
    with less.prems show ?thesis by (auto simp: scrape_loop.simps[of w t s])
  next
    case True
    define x where "x = (if 25 < dataset_length s - t
        then (long_sleep (emit (EvLog LongSleepTrack) s), dataset_length s) else (s, t))"
    obtain s1 t1 where x1: "(s1, t1) = x" by (cases x) auto
    have w1: "words s1 = words s" using x1 by (auto simp: x_def split: if_splits)
    obtain r2 s2 where po: "pop s1 = (r2, s2)" by (cases "pop s1")
    have unf: "scrape_loop w t s =
        (case pop s1 of (Inl e, s2) \<Rightarrow> (Inl e, s2)
         | (Inr query, s2) \<Rightarrow>
             (case scrape_query w query s2 of (Inl e, s3) \<Rightarrow> (Inl e, s3)
              | (Inr _, s3) \<Rightarrow> scrape_loop w t1 s3))"
      using True by (subst scrape_loop.simps) (simp add: x_def[symmetric] x1[symmetric])
    from less.prems po obtain q where r2: "r2 = Inr q" by (cases r2) (auto simp: unf)
    obtain r3 s3 where sq: "scrape_query w q s2 = (r3, s3)" by (cases "scrape_query w q s2")
    from less.prems po r2 sq obtain v3 where r3: "r3 = Inr v3"
      by (cases r3) (auto simp: unf)
    have rec: "scrape_loop w t1 s3 = (Inr v, s')"
      using less.prems po r2 sq r3 by (simp add: unf)
    have "length (words s3) < length (words s)"
      using words_pop[of s1 q s2] po r2 words_scrape_query[OF sq] w1 by simp
    from less.hyps[OF this rec] show ?thesis .
  qed
qed

lemma scrape_loop_done:
  "\<not> dataset_length s < max_articles s \<Longrightarrow>
   scrape_loop w t s = (Inr (), emit (EvLog (DoneScraping (dataset_length s))) s)"
  by (simp add: scrape_loop.simps[of w t s])

lemma scrape_loop_IndexError:
  assumes "scrape_loop w t s = (Inl IndexError, s')"
  shows "words s' = [] \<and> dataset_length s' < max_articles s'"
proof -
  define Q where "Q = (\<lambda>(p :: int \<times> scraper) (r :: error option) (p' :: int \<times> scraper).
    r = Some IndexError \<longrightarrow> words (snd p') = [] \<and> dataset_length (snd p') < max_articles (snd p'))"
  have "\<exists>t'. Q (t, s) (err (Inl IndexError :: error + unit)) (t', s')"
  proof (rule scrape_loop_rule[of Q, OF _ _ _ _ _ _ _ _ _ assms])
    show "Q (t, s) (err r) (t, s')"
      if "dataset_length s < max_articles s" "get_article_urls w q s = (r, s')"
      for t q s r s'
      using get_article_urls_shape[OF that(2)] by (auto simp: Q_def)
    show "Q (t, s) (err r) (t, s')" if "get_article_data w u s = (r, s')" for t u s r s'
      using get_article_data_shape(2)[OF that] by (auto simp: Q_def split: sum.splits)
    show "Q (t, s) (err r) (t, s')"
      if "dataset_length s < max_articles s" "pop s = (r, s')" for t s r s'
      using pop_shape[OF that(2)] that(1) by (auto simp: Q_def)
  qed (simp_all add: Q_def)
  then show ?thesis by (simp add: Q_def)
qed

definition valid_response :: "response \<Rightarrow> bool" where
  "valid_response resp \<longleftrightarrow>
     \<not> error_status resp \<and> get_text (soup resp) \<noteq> '''' \<and> get_summary (soup resp) \<noteq> ''''"

text \<open>
  A fetcher that returns exactly one new valid URL per query, for the queries of a list:
  at any time the search page of the query has one link, its article URL is not seen
  and is the URL of no other query, and the article page is valid.
\<close>

definition one_new_url_per_query :: "web \<Rightarrow> scraper \<Rightarrow> string list \<Rightarrow> (string \<Rightarrow> string) \<Rightarrow> bool" where
  "one_new_url_per_query w s queries url_of \<longleftrightarrow>
     distinct (map url_of queries) \<and>
     (\<forall>query\<in>set queries.
        url_of query \<notin> seen_urls s \<and>
        (\<forall>t. map (article_url_of w) (page_links w t (base_url query)) = [url_of query] \<and>
             valid_response (http_get w t (url_of query))))"

lemma get_article_urls_result:
  assumes "driver s" and "get_article_urls w q s = (r, s')"
  shows "\<exists>t. r = Inr (map (article_url_of w) (page_links w t (base_url q)))"
  using assms by (auto simp: get_article_urls_def Let_def split: if_splits)

lemma get_article_data_valid:
  assumes "\<And>t. valid_response (http_get w t u)" and "get_article_data w u s = (r, s')"
  shows "\<exists>ti su tx. r = Inr (Some (make_sample u ti su tx))"
proof -
  define resp where "resp = http_get w (now (short_sleep s)) u"
  have "valid_response resp" unfolding resp_def by (rule assms(1))
  then show ?thesis
    using assms(2)
    by (auto simp: get_article_data_def Let_def resp_def[symmetric] valid_response_def
        error_status_def) blast+
qed

lemma priv_scrape_one:
  assumes d: "driver s"
    and links: "\<And>t. map (article_url_of w) (page_links w t (base_url q)) = [u]"
    and valid: "\<And>t. valid_response (http_get w t u)"
    and new: "u \<notin> seen_urls s"
    and run: "priv_scrape w q s = (r, s')"
  shows "r = Inr True \<and> dataset_length s' = dataset_length s + 1 \<and>
         seen_urls s' = insert u (seen_urls s) \<and> words s' = words s \<and> driver s' \<and>
         max_articles s' = max_articles s"
proof -
  obtain r1 s1 where u1: "get_article_urls w q s = (r1, s1)"
    by (cases "get_article_urls w q s")
  from get_article_urls_result[OF d u1] links have r1: "r1 = Inr [u]" by auto
  note f1 = get_article_urls_frame[OF u1] words_get_article_urls[OF u1]
  obtain r2 s2 where d2: "get_article_data w u s1 = (r2, s2)"
    by (cases "get_article_data w u s1")
  from get_article_data_valid[OF valid d2] obtain ti su tx
    where r2: "r2 = Inr (Some (make_sample u ti su tx))" by blast
  note f2 = get_article_data_frame[OF d2] words_get_article_data[OF d2]
  obtain r3 s3 where sv: "save_sample (make_sample u ti su tx) s2 = (r3, s3)"
    by (cases "save_sample (make_sample u ti su tx) s2")
  note f3 = save_sample_ok[OF sv] save_sample_frame[OF sv] words_save_sample[OF sv]
  have "scrape_urls w [u] s1 = (Inr (), s3)"
    using new f1 d2 r2 sv f3 by simp
  then have "priv_scrape w q s = (Inr True, s3)"
    using u1 r1 by (simp add: priv_scrape_def)
  with run have "r = Inr True" "s' = s3" by simp_all
  with f1 f2 f3 d show ?thesis by simp
qed

lemma scrape_query_one:
  assumes d: "driver s"
    and links: "\<And>t. map (article_url_of w) (page_links w t (base_url q)) = [u]"
    and valid: "\<And>t. valid_response (http_get w t u)"
    and new: "u \<notin> seen_urls s"
    and run: "scrape_query w q s = (r, s')"
  shows "r = Inr () \<and> priv_scrape w q s = (Inr True, s') \<and>
         dataset_length s' = dataset_length s + 1 \<and>
         seen_urls s' = insert u (seen_urls s) \<and> words s' = words s \<and> driver s' \<and>
         max_articles s' = max_articles s"
proof -
  obtain rp sp where p: "priv_scrape w q s = (rp, sp)" by (cases "priv_scrape w q s")
  note f = priv_scrape_one[OF d links valid new p]
  from f p have "scrape_query w q s = (Inr (), sp)"
    by (simp add: scrape_query.simps[of w q s])
  with run have "r = Inr ()" "s' = sp" by simp_all
  with f p show ?thesis by simp
qed

fun is_long_sleep :: "event \<Rightarrow> bool" where
  "is_long_sleep (EvSleep Long lo hi) = True"
| "is_long_sleep _ = False"

definition quiet_rel :: "scraper \<Rightarrow> scraper \<Rightarrow> bool" where
  "quiet_rel s s' \<longleftrightarrow> (\<exists>es. trace s' = trace s @ es \<and> filter is_long_sleep es = [])"

lemma is_long_sleep_delay [simp]:
  "\<not> is_long_sleep (short_delay d)" "is_long_sleep (long_delay d)"
  by (simp_all add: short_delay_def long_delay_def)

lemma quiet_rel_refl: "quiet_rel s s"
  by (simp add: quiet_rel_def)

lemma quiet_rel_trans: "quiet_rel s s' \<Longrightarrow> quiet_rel s' s'' \<Longrightarrow> quiet_rel s s''"
  by (auto simp: quiet_rel_def)

lemma quiet_rel_priv_scrape:
  assumes "priv_scrape w q s = (r, s')"
  shows "quiet_rel s s'"
proof -
  define Q where "Q = (\<lambda>(s :: scraper) (r :: error option) (s' :: scraper). quiet_rel s s')"
  have "Q s (err r) s'"
  proof (rule priv_scrape_rule[of Q, OF _ _ _ _ _ assms])
    show "Q s r s''" if "Q s None s'" "Q s' r s''" for s s' s'' r
      using that by (auto simp: Q_def elim: quiet_rel_trans)
    show "Q s (err r) s'" if "get_article_urls w q s = (r, s')" for r s'
      using get_article_urls_shape[OF that] by (auto simp: Q_def quiet_rel_def)
    show "Q s (err r) s'" if "get_article_data w u s = (r, s')" for u s r s'
      using get_article_data_shape(1)[OF that] by (simp add: Q_def quiet_rel_def)
    show "Q s None s'" if "save_sample (make_sample u ti su tx) s = (r, s')"
      for u ti su tx s r s'
      using save_sample_shape(1)[OF that] by (simp add: Q_def quiet_rel_def)
  qed (simp add: Q_def quiet_rel_refl)
  then show ?thesis by (simp add: Q_def)
qed

lemma scenario_loop:
  assumes "one_new_url_per_query w s queries url_of"
    and "driver s"
    and "words s = rest @ rev queries"
    and "max_articles s = dataset_length s + int (length queries)"
    and "scrape_loop w t s = (r, s')"
  shows "r = Inr () \<and> dataset_length s' = max_articles s \<and> words s' = rest \<and>
         (max_articles s - t \<le> 26 \<longrightarrow> quiet_rel s s')"
  using assms
proof (induction queries arbitrary: s t)
  case Nil
  then show ?case
    by (auto simp: scrape_loop_done quiet_rel_def)
next
  case (Cons q qs)
  have lt: "dataset_length s < max_articles s" using Cons.prems(4) by simp
  define x where "x = (if 25 < dataset_length s - t
      then (long_sleep (emit (EvLog LongSleepTrack) s), dataset_length s) else (s, t))"
  obtain s1 t1 where x1: "(s1, t1) = x" by (cases x) auto
  have f1: "words s1 = words s" "dataset_length s1 = dataset_length s"
    "max_articles s1 = max_articles s" "seen_urls s1 = seen_urls s" "driver s1 = driver s"
    using x1 by (auto simp: x_def split: if_splits)
  have q1: "max_articles s - t \<le> 26 \<Longrightarrow> s1 = s \<and> t1 = t"
    using x1 lt by (auto simp: x_def split: if_splits)
  have unf: "scrape_loop w t s =
      (case pop s1 of (Inl e, s2) \<Rightarrow> (Inl e, s2)
       | (Inr query, s2) \<Rightarrow>
           (case scrape_query w query s2 of (Inl e, s3) \<Rightarrow> (Inl e, s3)
            | (Inr _, s3) \<Rightarrow> scrape_loop w t1 s3))"
    using lt by (subst scrape_loop.simps) (simp add: x_def[symmetric] x1[symmetric])
  have ws: "words s1 = (rest @ rev qs) @ [q]" using Cons.prems(3) f1 by simp
  have bl: "butlast (rest @ rev qs @ [q]) = rest @ rev qs" "last (rest @ rev qs @ [q]) = q"
    using butlast_snoc[of "rest @ rev qs" q] last_snoc[of "rest @ rev qs" q] by simp_all
  obtain s2 where po: "pop s1 = (Inr q, s2)" and f2: "words s2 = rest @ rev qs"
    "dataset_length s2 = dataset_length s" "max_articles s2 = max_articles s"
    "seen_urls s2 = seen_urls s" "driver s2" "trace s2 = trace s1 @ [EvPop q]"
    using ws f1 Cons.prems(2) bl by (simp add: pop_def)
  obtain r3 s3 where sq: "scrape_query w q s2 = (r3, s3)" by (cases "scrape_query w q s2")
  have one: "url_of q \<notin> seen_urls s2"
    "\<And>t. map (article_url_of w) (page_links w t (base_url q)) = [url_of q]"
    "\<And>t. valid_response (http_get w t (url_of q))"
    using Cons.prems(1) f2 by (auto simp: one_new_url_per_query_def)
  note f3 = scrape_query_one[OF f2(5) one(2) one(3) one(1) sq]
  have q3: "quiet_rel s2 s3"
    using f3 by (blast intro: quiet_rel_priv_scrape)
  have rec: "scrape_loop w t1 s3 = (r, s')"
    using Cons.prems(5) po sq f3 by (simp add: unf)
  have "one_new_url_per_query w s3 qs url_of"
  proof -
    from Cons.prems(1) have dq: "distinct (map url_of qs)" "url_of q \<notin> url_of ` set qs"
      and rest: "\<forall>query\<in>set qs. url_of query \<notin> seen_urls s \<and>
        (\<forall>t. map (article_url_of w) (page_links w t (base_url query)) = [url_of query] \<and>
             valid_response (http_get w t (url_of query)))"
      by (simp_all add: one_new_url_per_query_def)
    have "url_of query \<noteq> url_of q" if "query \<in> set qs" for query
      using that dq(2) by (auto simp: image_iff)
    with rest have "\<forall>query\<in>set qs. url_of query \<notin> seen_urls s3 \<and>
        (\<forall>t. map (article_url_of w) (page_links w t (base_url query)) = [url_of query] \<and>
             valid_response (http_get w t (url_of query)))"
      using f3 f2 by simp
    with dq(1) show ?thesis by (simp add: one_new_url_per_query_def)
  qed
  moreover have "driver s3" "words s3 = rest @ rev qs"
    "max_articles s3 = dataset_length s3 + int (length qs)"
    using f3 f2 Cons.prems(4) by simp_all
  ultimately have ih: "r = Inr () \<and> dataset_length s' = max_articles s3 \<and> words s' = rest \<and>
      (max_articles s3 - t1 \<le> 26 \<longrightarrow> quiet_rel s3 s')"
    using rec by (rule Cons.IH)
  have "quiet_rel s s'" if "max_articles s - t \<le> 26"
  proof -
    from q1[OF that] f2(6) have "quiet_rel s s2" by (simp add: quiet_rel_def)
    moreover from ih that q1[OF that] f3 f2 have "quiet_rel s3 s'" by simp
    ultimately show ?thesis using q3 by (blast intro: quiet_rel_trans)
  qed
  with ih f3 f2 show ?case by simp
qed

definition fresh_scraper :: "int \<Rightarrow> string list \<Rightarrow> scraper" where
  "fresh_scraper maxa shuffled = enter (snd (init None maxa True False shuffled))"

text \<open>
  A site on which every search page has one link, the query itself, already on the
  site's domain, and every article page is valid.
\<close>

definition plain_web :: web where
  "plain_web =
     \<lparr>page_links = (\<lambda>t url. [drop 31 url]),
      domain_of = (\<lambda>link. ''lrytas''),
      button_clickable = (\<lambda>t. True),
      http_get = (\<lambda>t url. \<lparr>status_code = 200, soup = demo_page\<rparr>)\<rparr>"

definition letters :: "string list" where
  "letters = map (\<lambda>c. [c]) ''abcdefghijklmnopqrstuvwxyz''"

lemma fresh_scraper_fields [simp]:
  "driver (fresh_scraper maxa ws)" "dataset_length (fresh_scraper maxa ws) = 0"
  "max_articles (fresh_scraper maxa ws) = maxa" "words (fresh_scraper maxa ws) = ws"
  "seen_urls (fresh_scraper maxa ws) = {}" "trace (fresh_scraper maxa ws) = []"
  "dataset_file (fresh_scraper maxa ws) = None"
  by (simp_all add: fresh_scraper_def init_def get_dataset_info_def enter_def)

lemma main_fresh: "main w None maxa True False ws = scrape w (fresh_scraper maxa ws)"
  by (simp add: main_def fresh_scraper_def init_def get_dataset_info_def)

lemma plain_web_one_new:
  "distinct queries \<Longrightarrow> seen_urls s = {} \<Longrightarrow>
   one_new_url_per_query plain_web s queries (\<lambda>query. query)"
  by (simp add: one_new_url_per_query_def plain_web_def article_url_of_def base_url_def
      valid_response_def error_status_def demo_page_def get_text_def get_summary_def)

lemma pace_rel_scrape:
  assumes "scrape w s = (r, s')"
  shows "trace s' = trace s @ events_from s s'"
    and "monitor (count_step (max_articles s)) (dataset_length s) (events_from s s') =
          Some (dataset_length s')"
    and "\<exists>n. monitor cooldown_step (0, Nothing) (events_from s s') = Some (n, Nothing)"
    and "monitor pool_step (words s) (events_from s s') = Some (words s')"
proof -
  from assms obtain t' where "pace_rel (dataset_length s, s) (t', s')"
    unfolding scrape_def using pace_rel_scrape_loop by blast
  then obtain es where es: "trace s' = trace s @ es"
    and m: "monitor (count_step (max_articles s)) (dataset_length s) es = Some (dataset_length s')"
      "monitor cooldown_step (0, Nothing) es = Some (dataset_length s' - t', Nothing)"
      "monitor pool_step (words s) es = Some (words s')"
    by (auto simp: pace_rel_def)
  from es have ev: "events_from s s' = es" by (simp add: events_from_def)
  from es m show "trace s' = trace s @ events_from s s'"
    and "monitor (count_step (max_articles s)) (dataset_length s) (events_from s s') =
          Some (dataset_length s')"
    and "\<exists>n. monitor cooldown_step (0, Nothing) (events_from s s') = Some (n, Nothing)"
    and "monitor pool_step (words s) (events_from s s') = Some (words s')"
    by (simp_all add: ev)
qed

text \<open>
  Claim C4. In every run of the crawl loop the events pass the count monitor: a query is
  drawn and a search page is loaded only while the count is below \<open>max_articles\<close>, and
  the end of the crawl is logged only when it is not. A run that returns normally ends
  with the count at or above \<open>max_articles\<close>; a run that starts there does nothing but
  log the end. With a fetcher that returns one new valid URL per query and
  \<open>max_articles\<close> as many above the count as there are queries (three, in the
  specification's example), the run returns normally after as many writes, having
  drawn exactly these queries and no other.
\<close>

theorem scrape_stops_at_max_articles:
  assumes "scrape w s = (r, s')"
  shows "monitor (count_step (max_articles s)) (dataset_length s) (events_from s s') =
           Some (dataset_length s') \<and>
         (r = Inr () \<longrightarrow> max_articles s \<le> dataset_length s') \<and>
         (max_articles s \<le> dataset_length s \<longrightarrow>
            r = Inr () \<and> events_from s s' = [EvLog (DoneScraping (dataset_length s))]) \<and>
         (driver s \<and> words s = rest @ rev queries \<and>
          max_articles s = dataset_length s + int (length queries) \<and>
          one_new_url_per_query w s queries url_of \<longrightarrow>
            r = Inr () \<and> length (writes (events_from s s')) = length queries \<and>
            pops (events_from s s') = queries \<and> words s' = rest)"
proof -
  note p = pace_rel_scrape[OF assms]
  have a: "max_articles s \<le> dataset_length s'" if "r = Inr ()"
  proof -
    from assms that obtain s1 where "s' = emit (EvLog (DoneScraping (dataset_length s1))) s1"
      "max_articles s1 \<le> dataset_length s1"
      unfolding scrape_def using scrape_loop_returns by blast
    moreover from assms have "max_articles s' = max_articles s"
      unfolding scrape_def using pace_rel_scrape_loop[of w "dataset_length s" s r s']
      by (auto simp: pace_rel_def)
    ultimately show ?thesis by simp
  qed
  have b: "r = Inr () \<and> events_from s s' = [EvLog (DoneScraping (dataset_length s))]"
    if "max_articles s \<le> dataset_length s"
    using assms that by (auto simp: scrape_def scrape_loop_done events_from_def)
  have c: "r = Inr () \<and> length (writes (events_from s s')) = length queries \<and>
      pops (events_from s s') = queries \<and> words s' = rest"
    if h: "driver s" "words s = rest @ rev queries"
      "max_articles s = dataset_length s + int (length queries)"
      "one_new_url_per_query w s queries url_of"
  proof -
    from scenario_loop[OF h(4,1,2,3) assms[unfolded scrape_def]]
    have r: "r = Inr ()" "dataset_length s' = max_articles s" "words s' = rest" by simp_all
    from count_monitor_writes[OF p(2)] r h(3)
    have "length (writes (events_from s s')) = length queries" by simp
    moreover from pool_monitor_pops[OF p(4)] r h(2)
    have "pops (events_from s s') = queries" by simp
    ultimately show ?thesis using r by simp
  qed
  from p(2) a b c show ?thesis by blast
qed

theorem scrape_stops_at_max_articles_witness:
  "fst (main plain_web None 3 True False [''penki'', ''keturi'', ''trys'', ''du'', ''vienas'']) = Inr () \<and>
   pops (trace (snd (main plain_web None 3 True False
     [''penki'', ''keturi'', ''trys'', ''du'', ''vienas'']))) = [''vienas'', ''du'', ''trys''] \<and>
   length (writes (trace (snd (main plain_web None 3 True False
     [''penki'', ''keturi'', ''trys'', ''du'', ''vienas''])))) = 3 \<and>
   words (snd (main plain_web None 3 True False
     [''penki'', ''keturi'', ''trys'', ''du'', ''vienas''])) = [''penki'', ''keturi'']"
proof -
  define s0 where "s0 = fresh_scraper 3 [''penki'', ''keturi'', ''trys'', ''du'', ''vienas'']"
  have run: "scrape plain_web s0 = (fst (scrape plain_web s0), snd (scrape plain_web s0))"
    by simp
  have one: "one_new_url_per_query plain_web s0 [''vienas'', ''du'', ''trys''] (\<lambda>query. query)"
    by (rule plain_web_one_new) (simp_all add: s0_def)
  have ev: "events_from s0 (snd (scrape plain_web s0)) = trace (snd (scrape plain_web s0))"
    by (simp add: events_from_def s0_def)
  from scrape_stops_at_max_articles[OF run, of "[''penki'', ''keturi'']"
      "[''vienas'', ''du'', ''trys'']" "\<lambda>query. query"] one
  show ?thesis
    by (simp add: main_fresh s0_def[symmetric] ev) (simp add: s0_def)
qed

end
